theory Spec2Isabelle
  imports Complex_Main "HOL-Library.Product_Lexorder"
begin

section \<open>Python strings\<close>

text \<open>
  A Python \<open>str\<close> is a sequence of Unicode code points (what \<open>ord\<close> gives, integers),
  and \<open>len\<close> counts code points.
  The bot's data is Russian text, so a string is modelled as the list of its code points
  (a byte string would make every Cyrillic letter two elements long).
  \<open>ustr\<close> turns an ASCII literal into such a list.
\<close>

type_synonym ustring = "int list"

definition ustr :: "string \<Rightarrow> ustring" where
  "ustr s = map of_char s"

definition SPACE :: int where "SPACE = 32"
definition DASH :: int where "DASH = 45"

text \<open>
  \<open>str.isspace\<close> of one character: the code points of Unicode's White\_Space set that
  Python treats as whitespace in \<open>split()\<close> and \<open>strip()\<close>.
\<close>

definition isspace :: "int \<Rightarrow> bool" where
  "isspace c = (c \<in> {9, 10, 11, 12, 13, 28, 29, 30, 31, 32, 133, 160, 5760,
                      8192, 8193, 8194, 8195, 8196, 8197, 8198, 8199, 8200, 8201, 8202,
                      8232, 8233, 8239, 8287, 12288})"

text \<open>
  \<open>str.lower\<close>, for the repertoire of the bot's data: ASCII and the Cyrillic block
  (U+0400..U+042F, which holds the Russian and Belarusian capitals). Other code points
  are left as they are.
\<close>

definition lower_char :: "int \<Rightarrow> int" where
  "lower_char c =
     (if 65 \<le> c \<and> c \<le> 90 then c + 32
      else if 1040 \<le> c \<and> c \<le> 1071 then c + 32
      else if 1024 \<le> c \<and> c \<le> 1039 then c + 80
      else c)"

definition lower :: "ustring \<Rightarrow> ustring" where
  "lower s = map lower_char s"

text \<open>\<open>str.strip()\<close>: whitespace removed at both ends.\<close>

definition strip :: "ustring \<Rightarrow> ustring" where
  "strip s = rev (dropWhile isspace (rev (dropWhile isspace s)))"

text \<open>
  \<open>str.split()\<close> without an argument: the maximal runs of non-whitespace characters.
  \<open>cur\<close> is the word being read.
\<close>

fun split_from :: "ustring \<Rightarrow> ustring \<Rightarrow> ustring list" where
  "split_from cur [] = (if cur = [] then [] else [cur])"
| "split_from cur (c # cs) =
     (if isspace c then (if cur = [] then split_from [] cs else cur # split_from [] cs)
      else split_from (cur @ [c]) cs)"

definition split :: "ustring \<Rightarrow> ustring list" where
  "split s = split_from [] s"

text \<open>
  \<open>s.split(sep)\<close> for a separator of one character: every occurrence cuts, so a string
  with n separators gives n + 1 parts, empty ones included.
\<close>

fun split_on_from :: "int \<Rightarrow> ustring \<Rightarrow> ustring \<Rightarrow> ustring list" where
  "split_on_from sep cur [] = [cur]"
| "split_on_from sep cur (c # cs) =
     (if c = sep then cur # split_on_from sep [] cs else split_on_from sep (cur @ [c]) cs)"

definition split_on :: "int \<Rightarrow> ustring \<Rightarrow> ustring list" where
  "split_on sep s = split_on_from sep [] s"

text \<open>\<open>sub in s\<close> for strings: \<open>sub\<close> occurs as a contiguous substring of \<open>s\<close>.\<close>

fun starts_with :: "ustring \<Rightarrow> ustring \<Rightarrow> bool" where
  "starts_with s [] = True"
| "starts_with [] (p # ps) = False"
| "starts_with (c # cs) (p # ps) = (c = p \<and> starts_with cs ps)"

fun str_in :: "ustring \<Rightarrow> ustring \<Rightarrow> bool" where
  "str_in sub [] = (sub = [])"
| "str_in sub (c # cs) = (starts_with (c # cs) sub \<or> str_in sub cs)"

text \<open>
  \<open>str.replace(old, new)\<close> where \<open>old\<close> and \<open>new\<close> are one character each, the only
  way the bot calls it.
\<close>

definition replace :: "int \<Rightarrow> int \<Rightarrow> ustring \<Rightarrow> ustring" where
  "replace old new s = map (\<lambda>c. if c = old then new else c) s"

text \<open>
  \<open>str.isdigit()\<close>: non-empty and every character a digit. Digits are modelled as the
  ASCII digits.
\<close>

definition is_digit_char :: "int \<Rightarrow> bool" where
  "is_digit_char c = (48 \<le> c \<and> c \<le> 57)"

definition isdigit :: "ustring \<Rightarrow> bool" where
  "isdigit s = (s \<noteq> [] \<and> list_all is_digit_char s)"

text \<open>
  \<open>int(s)\<close> for a string, base 10: surrounding whitespace is dropped, one sign is
  allowed, then digits, where single underscores may stand between digits. Anything
  else raises \<open>ValueError\<close>, modelled as \<open>None\<close>.
  \<open>digits_value acc prev s\<close> reads the digits; \<open>prev\<close> tells whether the character
  before was a digit (an underscore must stand between two digits).
\<close>

fun digits_value :: "int \<Rightarrow> bool \<Rightarrow> ustring \<Rightarrow> int option" where
  "digits_value acc prev [] = (if prev then Some acc else None)"
| "digits_value acc prev (c # cs) =
     (if is_digit_char c then digits_value (10 * acc + (c - 48)) True cs
      else if c = 95 \<and> prev then
        (case cs of [] \<Rightarrow> None
         | d # ds \<Rightarrow> if is_digit_char d then digits_value acc False cs else None)
      else None)"

definition py_int :: "ustring \<Rightarrow> int option" where
  "py_int s =
     (case strip s of
        [] \<Rightarrow> None
      | c # cs \<Rightarrow>
          if c = 45 then map_option uminus (digits_value 0 False cs)
          else if c = 43 then digits_value 0 False cs
          else digits_value 0 False (c # cs))"

section \<open>difflib.SequenceMatcher\<close>

text \<open>
  The bot measures similarity with \<open>SequenceMatcher(None, a, b).ratio()\<close> of Python's
  standard library: no junk predicate, and \<open>autojunk\<close> left at its default (on).
  A match is the triple \<open>(i, j, k)\<close> with \<open>a[i:i+k] == b[j:j+k]\<close>.
\<close>

type_synonym match = "nat \<times> nat \<times> nat"

text \<open>
  \<open>__chain_b\<close>: \<open>b2j\<close> maps an element to the ascending list of its positions in \<open>b\<close>.
  With \<open>isjunk = None\<close> the junk set is empty. When \<open>b\<close> has 200 elements or more,
  an element that occurs more than \<open>len(b) // 100 + 1\<close> times is popular and loses
  its entry.
\<close>

definition bjunk :: "int set" where
  "bjunk = {}"

definition bpopular :: "ustring \<Rightarrow> int \<Rightarrow> bool" where
  "bpopular b elt = (200 \<le> length b \<and> length b div 100 + 1 < count_list b elt)"

definition b2j :: "ustring \<Rightarrow> int \<Rightarrow> nat list" where
  "b2j b elt = (if bpopular b elt then [] else filter (\<lambda>j. b ! j = elt) [0..<length b])"

text \<open>
  \<open>j2len.get(j - 1, 0)\<close>: the dictionary \<open>j2len\<close> is an association list; the key
  \<open>-1\<close> (for j = 0) is never present.
\<close>

definition j2lenget :: "(nat \<times> nat) list \<Rightarrow> nat \<Rightarrow> nat" where
  "j2lenget j2len j = (case j of 0 \<Rightarrow> 0
                       | Suc j' \<Rightarrow> (case map_of j2len j' of None \<Rightarrow> 0 | Some k \<Rightarrow> k))"

text \<open>
  The inner loop of \<open>find_longest_match\<close>, over the positions \<open>j\<close> of \<open>a[i]\<close> in \<open>b\<close>:
  \<open>continue\<close> below \<open>blo\<close>, \<open>break\<close> from \<open>bhi\<close> on. \<open>i - k + 1\<close> is written
  \<open>Suc i - k\<close>; \<open>k\<close> never exceeds \<open>i + 1\<close>.
\<close>

fun inner_loop ::
  "(nat \<times> nat) list \<Rightarrow> nat \<Rightarrow> nat \<Rightarrow> nat \<Rightarrow> nat list \<Rightarrow>
   (nat \<times> nat) list \<times> match \<Rightarrow> (nat \<times> nat) list \<times> match" where
  "inner_loop j2len i blo bhi [] st = st"
| "inner_loop j2len i blo bhi (j # js) (newj2len, besti, bestj, bestsize) =
     (if j < blo then inner_loop j2len i blo bhi js (newj2len, besti, bestj, bestsize)
      else if bhi \<le> j then (newj2len, besti, bestj, bestsize)
      else
        (let k = j2lenget j2len j + 1 in
         inner_loop j2len i blo bhi js
           ((j, k) # newj2len,
            if bestsize < k then (Suc i - k, Suc j - k, k) else (besti, bestj, bestsize))))"

text \<open>The outer loop \<open>for i in range(alo, ahi)\<close>: the longest junk-free match.\<close>

definition outer_loop :: "ustring \<Rightarrow> ustring \<Rightarrow> nat \<Rightarrow> nat \<Rightarrow> nat \<Rightarrow> nat \<Rightarrow>
    (nat \<times> nat) list \<times> match" where
  "outer_loop a b alo ahi blo bhi =
     fold (\<lambda>i (j2len, best). inner_loop j2len i blo bhi (b2j b (a ! i)) ([], best))
       [alo..<ahi] ([], (alo, blo, 0))"

text \<open>
  The four \<open>while\<close> loops that extend the match at its ends: first by elements that
  are not junk (\<open>junk = False\<close>), then by junk (\<open>junk = True\<close>).
\<close>

function extend_left :: "ustring \<Rightarrow> ustring \<Rightarrow> bool \<Rightarrow> nat \<Rightarrow> nat \<Rightarrow> match \<Rightarrow> match" where
  "extend_left a b junk alo blo (besti, bestj, bestsize) =
     (if alo < besti \<and> blo < bestj \<and> (b ! (bestj - 1) \<in> bjunk) = junk
         \<and> a ! (besti - 1) = b ! (bestj - 1)
      then extend_left a b junk alo blo (besti - 1, bestj - 1, bestsize + 1)
      else (besti, bestj, bestsize))"
  by pat_completeness auto
termination
  by (relation "measure (\<lambda>(a, b, junk, alo, blo, besti, bestj, bestsize). besti)") auto

function extend_right :: "ustring \<Rightarrow> ustring \<Rightarrow> bool \<Rightarrow> nat \<Rightarrow> nat \<Rightarrow> match \<Rightarrow> match" where
  "extend_right a b junk ahi bhi (besti, bestj, bestsize) =
     (if besti + bestsize < ahi \<and> bestj + bestsize < bhi
         \<and> (b ! (bestj + bestsize) \<in> bjunk) = junk
         \<and> a ! (besti + bestsize) = b ! (bestj + bestsize)
      then extend_right a b junk ahi bhi (besti, bestj, bestsize + 1)
      else (besti, bestj, bestsize))"
  by pat_completeness auto
termination
  by (relation "measure (\<lambda>(a, b, junk, ahi, bhi, besti, bestj, bestsize). ahi - (besti + bestsize))")
     auto

definition find_longest_match ::
  "ustring \<Rightarrow> ustring \<Rightarrow> nat \<Rightarrow> nat \<Rightarrow> nat \<Rightarrow> nat \<Rightarrow> match" where
  "find_longest_match a b alo ahi blo bhi =
     extend_right a b True ahi bhi
       (extend_left a b True alo blo
         (extend_right a b False ahi bhi
           (extend_left a b False alo blo
             (snd (outer_loop a b alo ahi blo bhi)))))"

subsection \<open>The match stays inside the window\<close>

lemma j2lenget_le:
  "\<forall>p \<in> set d. snd p \<le> B \<Longrightarrow> j2lenget d j \<le> B"
  by (auto simp: j2lenget_def split: nat.splits option.splits dest!: map_of_SomeD)

lemma inner_loop_bounds:
  assumes "inner_loop j2len i blo bhi js (new, bi, bj, bs) = (new', bi', bj', bs')"
    and "\<forall>p \<in> set j2len. snd p \<le> i - alo" and "alo \<le> i"
    and "\<forall>p \<in> set new. snd p \<le> Suc i - alo"
    and "alo \<le> bi" and "bi + bs \<le> Suc i"
  shows "(\<forall>p \<in> set new'. snd p \<le> Suc i - alo) \<and> alo \<le> bi' \<and> bi' + bs' \<le> Suc i"
  using assms
proof (induction js arbitrary: new bi bj bs)
  case Nil
  then show ?case by simp
next
  case (Cons j js)
  have k: "j2lenget j2len j + 1 \<le> Suc i - alo"
    using j2lenget_le[OF Cons.prems(2), of j] Cons.prems(3) by simp
  show ?case
  proof (cases "j < blo")
    case True
    with Cons show ?thesis by simp
  next
    case False
    show ?thesis
    proof (cases "bhi \<le> j")
      case True
      with False Cons.prems show ?thesis by simp
    next
      case nb: False
      show ?thesis
      proof (cases "bs < j2lenget j2len j + 1")
        case True
        have "inner_loop j2len i blo bhi js ((j, j2lenget j2len j + 1) # new, Suc i - (j2lenget j2len j + 1), Suc j - (j2lenget j2len j + 1), j2lenget j2len j + 1) = (new', bi', bj', bs')"
          using Cons.prems(1) False nb True by (simp add: Let_def)
        from Cons.IH[OF this Cons.prems(2) Cons.prems(3)] k Cons.prems show ?thesis by auto
      next
        case nu: False
        have "inner_loop j2len i blo bhi js ((j, j2lenget j2len j + 1) # new, bi, bj, bs) = (new', bi', bj', bs')"
          using Cons.prems(1) False nb nu by (simp add: Let_def)
        from Cons.IH[OF this Cons.prems(2) Cons.prems(3)] k Cons.prems show ?thesis by auto
      qed
    qed
  qed
qed

lemma outer_loop_bounds:
  "alo \<le> m \<Longrightarrow> outer_loop a b alo m blo bhi = (d, bi, bj, bs) \<Longrightarrow>
     (\<forall>p \<in> set d. snd p \<le> m - alo) \<and> alo \<le> bi \<and> bi + bs \<le> m"
proof (induction m arbitrary: d bi bj bs)
  case 0
  then show ?case by (simp add: outer_loop_def)
next
  case (Suc m)
  show ?case
  proof (cases "alo = Suc m")
    case True
    with Suc.prems show ?thesis by (simp add: outer_loop_def)
  next
    case False
    then have le: "alo \<le> m" using Suc.prems by simp
    obtain d0 bi0 bj0 bs0 where o: "outer_loop a b alo m blo bhi = (d0, bi0, bj0, bs0)"
      by (metis prod_cases4)
    have step: "inner_loop d0 m blo bhi (b2j b (a ! m)) ([], bi0, bj0, bs0) = (d, bi, bj, bs)"
      using Suc.prems(2) o le by (simp add: outer_loop_def)
    from Suc.IH[OF le o] have i0: "(\<forall>p \<in> set d0. snd p \<le> m - alo)" "alo \<le> bi0" "bi0 + bs0 \<le> m" by auto
    show ?thesis
      using inner_loop_bounds[OF step i0(1) le _ i0(2)] i0(3) by simp
  qed
qed

lemma outer_loop_empty: "ahi \<le> alo \<Longrightarrow> outer_loop a b alo ahi blo bhi = ([], alo, blo, 0)"
  by (simp add: outer_loop_def)

lemma extend_left_bounds:
  "extend_left a b junk alo blo (bi, bj, bs) = (i, j, k) \<Longrightarrow> alo \<le> bi \<Longrightarrow>
     alo \<le> i \<and> i + k = bi + bs"
proof (induction a b junk alo blo "(bi, bj, bs)" arbitrary: bi bj bs rule: extend_left.induct)
  case (1 a b junk alo blo besti bestj bestsize)
  show ?case
  proof (cases "alo < besti \<and> blo < bestj \<and> (b ! (bestj - 1) \<in> bjunk) = junk
         \<and> a ! (besti - 1) = b ! (bestj - 1)")
    case True
    then have "extend_left a b junk alo blo (besti - 1, bestj - 1, bestsize + 1) = (i, j, k)"
      using "1.prems"(1) by (simp del: extend_left.simps add: extend_left.simps[of a b junk alo blo besti bestj bestsize])
    from "1.hyps"[OF True this] True show ?thesis by auto
  next
    case False
    then show ?thesis using "1.prems" by auto
  qed
qed

lemma extend_right_bounds:
  "extend_right a b junk ahi bhi (bi, bj, bs) = (i, j, k) \<Longrightarrow>
     i = bi \<and> bs \<le> k \<and> i + k \<le> max ahi (bi + bs)"
proof (induction a b junk ahi bhi "(bi, bj, bs)" arbitrary: bi bj bs rule: extend_right.induct)
  case (1 a b junk ahi bhi besti bestj bestsize)
  show ?case
  proof (cases "besti + bestsize < ahi \<and> bestj + bestsize < bhi
         \<and> (b ! (bestj + bestsize) \<in> bjunk) = junk
         \<and> a ! (besti + bestsize) = b ! (bestj + bestsize)")
    case True
    then have "extend_right a b junk ahi bhi (besti, bestj, bestsize + 1) = (i, j, k)"
      using "1.prems"(1) by (simp del: extend_right.simps add: extend_right.simps[of a b junk ahi bhi besti bestj bestsize])
    from "1.hyps"[OF True this] True show ?thesis by auto
  next
    case False
    then show ?thesis using "1.prems" by auto
  qed
qed

lemma find_longest_match_bounds:
  assumes "find_longest_match a b alo ahi blo bhi = (i, j, k)"
  shows "alo \<le> i \<and> i + k \<le> max alo ahi"
proof -
  obtain d bi0 bj0 bs0 where o: "outer_loop a b alo ahi blo bhi = (d, bi0, bj0, bs0)"
    by (metis prod_cases4)
  have b0: "alo \<le> bi0 \<and> bi0 + bs0 \<le> max alo ahi"
  proof (cases "alo \<le> ahi")
    case True
    from outer_loop_bounds[OF True o] show ?thesis by auto
  next
    case False
    then show ?thesis using o by (simp add: outer_loop_empty)
  qed
  obtain bi1 bj1 bs1 where e1: "extend_left a b False alo blo (bi0, bj0, bs0) = (bi1, bj1, bs1)"
    by (metis prod_cases3)
  obtain bi2 bj2 bs2 where e2: "extend_right a b False ahi bhi (bi1, bj1, bs1) = (bi2, bj2, bs2)"
    by (metis prod_cases3)
  obtain bi3 bj3 bs3 where e3: "extend_left a b True alo blo (bi2, bj2, bs2) = (bi3, bj3, bs3)"
    by (metis prod_cases3)
  have e4: "extend_right a b True ahi bhi (bi3, bj3, bs3) = (i, j, k)"
    using assms o e1 e2 e3 by (simp add: find_longest_match_def)
  from extend_left_bounds[OF e1] b0 have c1: "alo \<le> bi1" "bi1 + bs1 \<le> max alo ahi" by auto
  from extend_right_bounds[OF e2] c1 have c2: "alo \<le> bi2" "bi2 + bs2 \<le> max alo ahi" by auto
  from extend_left_bounds[OF e3] c2 have c3: "alo \<le> bi3" "bi3 + bs3 \<le> max alo ahi" by auto
  from extend_right_bounds[OF e4] c3 show ?thesis by auto
qed

subsection \<open>Matching blocks and the ratio\<close>

text \<open>
  \<open>get_matching_blocks\<close>: a stack of windows \<open>(alo, ahi, blo, bhi)\<close>; the head of the
  list is the top of the stack (\<open>queue.pop()\<close> takes the last element appended). A window
  with a match of size \<open>k > 0\<close> is replaced by the windows left and right of the match.
\<close>

function matching_loop ::
  "ustring \<Rightarrow> ustring \<Rightarrow> (nat \<times> nat \<times> nat \<times> nat) list \<Rightarrow> match list \<Rightarrow> match list" where
  "matching_loop a b [] matching_blocks = matching_blocks"
| "matching_loop a b ((alo, ahi, blo, bhi) # queue) matching_blocks =
     (case find_longest_match a b alo ahi blo bhi of
        (i, j, k) \<Rightarrow>
          if k \<noteq> 0 then
            matching_loop a b
              ((if i + k < ahi \<and> j + k < bhi then [(i + k, ahi, j + k, bhi)] else [])
               @ (if alo < i \<and> blo < j then [(alo, i, blo, j)] else [])
               @ queue)
              (matching_blocks @ [(i, j, k)])
          else matching_loop a b queue matching_blocks)"
  by pat_completeness auto
termination
proof (relation "measure (\<lambda>(a, b, queue, blocks).
          sum_list (map (\<lambda>(alo, ahi, blo, bhi). 2 * (ahi - alo) + 1) queue))", goal_cases)
  case 1
  then show ?case by simp
next
  case (2 a b alo ahi blo bhi queue blocks i y j k)
  then have "find_longest_match a b alo ahi blo bhi = (i, j, k)" by simp
  from find_longest_match_bounds[OF this] 2 show ?case by auto
next
  case 3
  then show ?case by simp
qed

text \<open>
  The blocks are sorted and adjacent ones are merged; the sentinel \<open>(la, lb, 0)\<close> ends
  the list. \<open>collapse\<close> is the merging loop with the \<open>if k1:\<close> after it.
\<close>

fun collapse :: "match \<Rightarrow> match list \<Rightarrow> match list \<Rightarrow> match list" where
  "collapse (i1, j1, k1) [] non_adjacent =
     (if k1 \<noteq> 0 then non_adjacent @ [(i1, j1, k1)] else non_adjacent)"
| "collapse (i1, j1, k1) ((i2, j2, k2) # blocks) non_adjacent =
     (if i1 + k1 = i2 \<and> j1 + k1 = j2 then collapse (i1, j1, k1 + k2) blocks non_adjacent
      else collapse (i2, j2, k2) blocks
             (if k1 \<noteq> 0 then non_adjacent @ [(i1, j1, k1)] else non_adjacent))"

definition get_matching_blocks :: "ustring \<Rightarrow> ustring \<Rightarrow> match list" where
  "get_matching_blocks a b =
     collapse (0, 0, 0) (sort (matching_loop a b [(0, length a, 0, length b)] [])) []
     @ [(length a, length b, 0)]"

text \<open>
  \<open>ratio()\<close> is \<open>2.0 * matches / length\<close>, or 1.0 when both strings are empty. The
  float is modelled by the exact rational: both operands are integers far below
  \<open>2^53\<close>, the division is correctly rounded, so comparing the float with the literals
  0.6, 0.7 and 0.8 gives what comparing the rational with 3/5, 7/10 and 4/5 gives.
\<close>

definition calculate_ratio :: "nat \<Rightarrow> nat \<Rightarrow> rat" where
  "calculate_ratio matches len = (if len \<noteq> 0 then 2 * of_nat matches / of_nat len else 1)"

definition ratio :: "ustring \<Rightarrow> ustring \<Rightarrow> rat" where
  "ratio a b =
     calculate_ratio (sum_list (map (\<lambda>(i, j, k). k) (get_matching_blocks a b)))
       (length a + length b)"

section \<open>The grading engine (knowledge\_test.py)\<close>

text \<open>\<open>_calculate_similarity\<close>: both strings in lower case, then the ratio.\<close>

definition calculate_similarity :: "ustring \<Rightarrow> ustring \<Rightarrow> rat" where
  "calculate_similarity str1 str2 = ratio (lower str1) (lower str2)"

text \<open>
  \<open>_extract_keywords\<close>: lower case, each punctuation character of
  \<open>".,;:!?\<emdash>()-\"'"\<close> replaced by a space, split into words, and the words longer
  than 3 characters that are no stop words kept, in order and with repetitions.
\<close>

definition punctuation :: "int list" where
  "punctuation = [46, 44, 59, 58, 33, 63, 8212, 40, 41, 45, 34, 39]"

text \<open>The stop words, as code points: the sixteen Russian prepositions and conjunctions of the source.\<close>

definition stop_words :: "ustring list" where
  "stop_words =
     [[1074], [1085, 1072], [1080], [1089], [1087, 1086], [1072], [1086], [1091], [1082],
      [1086, 1090], [1076, 1086], [1080, 1079], [1076, 1083, 1103], [1079, 1072],
      [1087, 1086, 1076], [1085, 1072, 1076]]"

definition extract_keywords :: "ustring \<Rightarrow> ustring list" where
  "extract_keywords text =
     (let text1 = lower text;
          text2 = fold (\<lambda>char t. replace char SPACE t) punctuation text1;
          words = split text2
      in filter (\<lambda>word. 3 < length word \<and> word \<notin> set stop_words) words)"

text \<open>
  \<open>_check_keywords\<close>: 0 for no keywords; otherwise the share of the keywords that occur
  in the answer (lower case) as substrings.
\<close>

definition check_keywords :: "ustring \<Rightarrow> ustring list \<Rightarrow> rat" where
  "check_keywords answer keywords =
     (if keywords = [] then 0
      else
        (let answer1 = lower answer;
             found = fold (\<lambda>keyword found. if str_in keyword answer1 then found + 1 else found)
                       keywords (0 :: nat)
         in of_nat found / of_nat (length keywords)))"

text \<open>
  \<open>_check_date_answer\<close>. \<open>parse_bounds s\<close> is
  \<open>start, end = map(int, s.split("-"))\<close>: it succeeds when there are exactly two parts
  and both are integers; every other case raises \<open>ValueError\<close> (\<open>None\<close>).
  \<open>try_period\<close> is the body of the \<open>try\<close>: \<open>Some r\<close> when it returns \<open>r\<close>, \<open>None\<close>
  when it raises (the \<open>except\<close> clause passes) or reaches its end.
\<close>

definition parse_bounds :: "ustring \<Rightarrow> (int \<times> int) option" where
  "parse_bounds s =
     (case split_on DASH s of
        [p, q] \<Rightarrow>
          (case py_int p of
             None \<Rightarrow> None
           | Some x \<Rightarrow> (case py_int q of None \<Rightarrow> None | Some y \<Rightarrow> Some (x, y)))
      | _ \<Rightarrow> None)"

definition try_period :: "ustring \<Rightarrow> ustring \<Rightarrow> bool option" where
  "try_period user_answer correct_answer =
     (case parse_bounds correct_answer of
        None \<Rightarrow> None
      | Some (correct_start, correct_end) \<Rightarrow>
          if isdigit user_answer then
            (case py_int user_answer of
               None \<Rightarrow> None
             | Some user_date \<Rightarrow> Some (correct_start \<le> user_date \<and> user_date \<le> correct_end))
          else if DASH \<in> set user_answer then
            (case parse_bounds user_answer of
               None \<Rightarrow> None
             | Some (user_start, user_end) \<Rightarrow>
                 Some (user_start = correct_start \<and> user_end = correct_end))
          else None)"

text \<open>The rules after the \<open>try\<close>: the date with a month, the plain years, the similarity.\<close>

definition month_rule :: "ustring \<Rightarrow> ustring \<Rightarrow> bool" where
  "month_rule user_answer correct_answer =
     (SPACE \<in> set correct_answer \<and>
      list_ex (\<lambda>part. isdigit part \<and> str_in part user_answer) (split correct_answer))"

definition after_period :: "ustring \<Rightarrow> ustring \<Rightarrow> bool" where
  "after_period user_answer correct_answer =
     (if month_rule user_answer correct_answer then True
      else if isdigit correct_answer \<and> isdigit user_answer then correct_answer = user_answer
      else 4 / 5 \<le> calculate_similarity user_answer correct_answer)"

definition check_date_answer :: "ustring \<Rightarrow> ustring \<Rightarrow> bool" where
  "check_date_answer user_answer0 correct_answer0 =
     (let user_answer = lower (strip user_answer0);
          correct_answer = lower (strip correct_answer0)
      in if user_answer = correct_answer then True
         else
           (case (if DASH \<in> set correct_answer
                  then try_period user_answer correct_answer else None) of
              Some r \<Rightarrow> r
            | None \<Rightarrow> after_period user_answer correct_answer))"

text \<open>
  \<open>_calculate_name_similarity\<close>. \<open>part_matched\<close> is the inner loop with its \<open>break\<close>:
  the first part of the user's name that is similar enough ends the search.
\<close>

fun part_matched :: "ustring list \<Rightarrow> ustring \<Rightarrow> bool" where
  "part_matched [] correct_part = False"
| "part_matched (user_part # user_parts) correct_part =
     (if 4 / 5 < calculate_similarity user_part correct_part then True
      else part_matched user_parts correct_part)"

definition calculate_name_similarity :: "ustring \<Rightarrow> ustring \<Rightarrow> rat" where
  "calculate_name_similarity user_name0 correct_name0 =
     (let user_name = lower user_name0;
          correct_name = lower correct_name0
      in if user_name = correct_name then 1
         else
           (let user_parts = map strip (split user_name);
                correct_parts = map strip (split correct_name);
                total_parts = length correct_parts;
                matched_parts =
                  fold (\<lambda>correct_part matched.
                          if part_matched user_parts correct_part then matched + 1 else matched)
                    correct_parts (0 :: nat)
            in if 0 < total_parts then of_nat matched_parts / of_nat total_parts else 0))"

section \<open>The statistics (stats\_manager.py)\<close>

text \<open>
  The statistics are nested dictionaries. A dictionary is an association list in
  insertion order: \<open>dict_get\<close> is the lookup, \<open>dict_set\<close> is \<open>d[k] = v\<close> (an existing key
  keeps its place, a new key goes to the end).
\<close>

definition dict_get :: "('k \<times> 'v) list \<Rightarrow> 'k \<Rightarrow> 'v option" where
  "dict_get d k = map_of d k"

fun dict_set :: "('k \<times> 'v) list \<Rightarrow> 'k \<Rightarrow> 'v \<Rightarrow> ('k \<times> 'v) list" where
  "dict_set [] k v = [(k, v)]"
| "dict_set ((k', v') # d) k v = (if k' = k then (k, v) # d else (k', v') # dict_set d k v)"

record type_stats =
  total :: int
  correct :: int

record history_item =
  timestamp :: int
  is_correct :: bool

record question_stats =
  test_type :: ustring
  attempts :: int
  q_correct :: int
  last_attempt :: int
  history :: "history_item list"

record user_stats =
  tests_total :: int
  tests_correct :: int
  test_types :: "(ustring \<times> type_stats) list"
  questions :: "(ustring \<times> question_stats) list"

text \<open>
  The manager: \<open>stats\<close> is keyed by the user id (the source's key is \<open>str(user_id)\<close>,
  which is one-to-one), \<open>changes_count\<close> counts the changes since the last save.
  Writing the file is not modelled.
\<close>

record stats_manager =
  stats :: "(int \<times> user_stats) list"
  changes_count :: int

definition save_interval :: int where
  "save_interval = 10"

definition new_user_stats :: user_stats where
  "new_user_stats = \<lparr>tests_total = 0, tests_correct = 0, test_types = [], questions = []\<rparr>"

definition get_or_create_user_stats :: "(int \<times> user_stats) list \<Rightarrow> int \<Rightarrow> (int \<times> user_stats) list" where
  "get_or_create_user_stats st user_id =
     (if dict_get st user_id = None then dict_set st user_id new_user_stats else st)"

definition auto_save :: "int \<Rightarrow> int" where
  "auto_save changes = (if save_interval \<le> changes + 1 then 0 else changes + 1)"

text \<open>\<open>history[-10:]\<close> and, in general, \<open>xs[-n:]\<close>: the last \<open>n\<close> elements.\<close>

definition last_n :: "nat \<Rightarrow> 'a list \<Rightarrow> 'a list" where
  "last_n n xs = drop (length xs - n) xs"

text \<open>
  \<open>update_user\<close> is the body of \<open>add_test_result\<close> on the user's dictionary; the time
  of the call is the argument \<open>current_time\<close>.
\<close>

definition update_user :: "user_stats \<Rightarrow> ustring \<Rightarrow> ustring \<Rightarrow> bool \<Rightarrow> int \<Rightarrow> user_stats" where
  "update_user user_stats0 ttype question ok current_time =
     (let types1 = (if dict_get (test_types user_stats0) ttype = None
                    then dict_set (test_types user_stats0) ttype \<lparr>total = 0, correct = 0\<rparr>
                    else test_types user_stats0);
          questions1 = (if dict_get (questions user_stats0) question = None
                        then dict_set (questions user_stats0) question
                               \<lparr>test_type = ttype, attempts = 0, q_correct = 0,
                                last_attempt = 0, history = []\<rparr>
                        else questions user_stats0);
          types2 = (case dict_get types1 ttype of
                      None \<Rightarrow> types1
                    | Some ts \<Rightarrow>
                        dict_set types1 ttype
                          \<lparr>total = total ts + 1,
                           correct = (if ok then correct ts + 1 else correct ts)\<rparr>);
          questions2 = (case dict_get questions1 question of
                          None \<Rightarrow> questions1
                        | Some qs \<Rightarrow>
                            (let history1 = history qs @ [\<lparr>timestamp = current_time, is_correct = ok\<rparr>]
                             in dict_set questions1 question
                                  (qs\<lparr>attempts := attempts qs + 1,
                                      q_correct := (if ok then q_correct qs + 1 else q_correct qs),
                                      last_attempt := current_time,
                                      history := (if 10 < length history1
                                                  then last_n 10 history1 else history1)\<rparr>)))
      in \<lparr>tests_total = tests_total user_stats0 + 1,
          tests_correct = (if ok then tests_correct user_stats0 + 1 else tests_correct user_stats0),
          test_types = types2,
          questions = questions2\<rparr>)"

definition add_test_result ::
  "stats_manager \<Rightarrow> int \<Rightarrow> ustring \<Rightarrow> ustring \<Rightarrow> bool \<Rightarrow> int \<Rightarrow> stats_manager" where
  "add_test_result sm user_id ttype question ok current_time =
     (let st = get_or_create_user_stats (stats sm) user_id
      in case dict_get st user_id of
           None \<Rightarrow> sm
         | Some us \<Rightarrow>
             \<lparr>stats = dict_set st user_id (update_user us ttype question ok current_time),
              changes_count = auto_save (changes_count sm)\<rparr>)"

section \<open>Questions and answers (knowledge\_test.py)\<close>

record event =
  event_id :: int
  date :: ustring
  description :: ustring

record figure =
  figure_id :: int
  name :: ustring
  achievement :: ustring

text \<open>\<open>context.user_data["current_test"]\<close>: its type and the fact asked about.\<close>

datatype current_test =
    DateTest event
  | EventTest event
  | FigureTest figure
  | AchievementTest figure

text \<open>
  The random generator is the list of the raw numbers it will draw (0 when the list is
  used up); \<open>randbelow n\<close> reduces the next one below \<open>n\<close>. Every outcome of the
  generator is some such list.
\<close>

type_synonym rng = "nat list"

datatype py_error = IndexError

fun randbelow :: "nat \<Rightarrow> rng \<Rightarrow> nat \<times> rng" where
  "randbelow n [] = (0, [])"
| "randbelow n (r # g) = (r mod n, g)"

text \<open>\<open>random.choice(seq)\<close> raises \<open>IndexError\<close> on an empty sequence.\<close>

definition choice :: "'a list \<Rightarrow> rng \<Rightarrow> (py_error + 'a) \<times> rng" where
  "choice seq g =
     (if seq = [] then (Inl IndexError, g)
      else (case randbelow (length seq) g of (i, g') \<Rightarrow> (Inr (seq ! i), g')))"

text \<open>
  \<open>random.shuffle(x)\<close>: for \<open>i\<close> from \<open>len(x) - 1\<close> down to 1, swap \<open>x[i]\<close> with
  \<open>x[j]\<close>, \<open>j\<close> drawn below \<open>i + 1\<close>.
\<close>

fun shuffle_from :: "nat \<Rightarrow> 'a list \<Rightarrow> rng \<Rightarrow> 'a list \<times> rng" where
  "shuffle_from 0 x g = (x, g)"
| "shuffle_from (Suc i) x g =
     (case randbelow (Suc i + 1) g of
        (j, g') \<Rightarrow> shuffle_from i (x[Suc i := x ! j, j := x ! Suc i]) g')"

definition shuffle :: "'a list \<Rightarrow> rng \<Rightarrow> 'a list \<times> rng" where
  "shuffle x g = shuffle_from (length x - 1) x g"

text \<open>
  The selection that opens each of the four \<open>start_..._test\<close> functions: the facts not
  yet used by the user, all of them again when none is left, one chosen at random and
  marked as used. \<open>used\<close> is \<open>used_events\<close> or \<open>used_figures\<close>. The dictionary keeps
  its changes when \<open>random.choice\<close> raises.
\<close>

type_synonym used_ids = "int \<Rightarrow> int list option"

definition select_fact ::
  "('f \<Rightarrow> int) \<Rightarrow> used_ids \<Rightarrow> int \<Rightarrow> 'f list \<Rightarrow> rng \<Rightarrow> (py_error + 'f) \<times> used_ids \<times> rng" where
  "select_fact fact_id used user_id all_facts g =
     (let consumed = (case used user_id of None \<Rightarrow> [] | Some ids \<Rightarrow> ids);
          available = filter (\<lambda>item. fact_id item \<notin> set consumed) all_facts;
          consumed1 = (if available = [] then [] else consumed);
          available1 = (if available = [] then all_facts else available)
      in case choice available1 g of
           (Inl e, g') \<Rightarrow> (Inl e, used(user_id \<mapsto> consumed1), g')
         | (Inr item, g') \<Rightarrow> (Inr item, used(user_id \<mapsto> consumed1 @ [fact_id item]), g'))"

record knowledge_test =
  used_events :: used_ids
  used_figures :: used_ids

text \<open>
  What a \<open>start_..._test\<close> leaves behind: the question stored as the current test, or
  the message that the database holds no fact (\<open>NoData\<close>).
  \<open>not event\<close> is true of an empty dictionary only, and every fact holds its three keys.
\<close>

datatype started = NoData | Asked current_test

definition empty_fact :: "'f \<Rightarrow> bool" where
  "empty_fact item = False"

definition start_test ::
  "('f \<Rightarrow> int) \<Rightarrow> ('f \<Rightarrow> current_test) \<Rightarrow> used_ids \<Rightarrow> int \<Rightarrow> 'f list \<Rightarrow> rng \<Rightarrow>
   (py_error + started) \<times> used_ids \<times> rng" where
  "start_test fact_id mk used user_id all_facts g =
     (case select_fact fact_id used user_id all_facts g of
        (Inl e, used', g') \<Rightarrow> (Inl e, used', g')
      | (Inr item, used', g') \<Rightarrow>
          (Inr (if empty_fact item then NoData else Asked (mk item)), used', g'))"

definition start_date_test ::
  "knowledge_test \<Rightarrow> int \<Rightarrow> event list \<Rightarrow> rng \<Rightarrow> (py_error + started) \<times> knowledge_test \<times> rng" where
  "start_date_test kt user_id all_events g =
     (case start_test event_id DateTest (used_events kt) user_id all_events g of
        (r, used', g') \<Rightarrow> (r, kt\<lparr>used_events := used'\<rparr>, g'))"

definition start_event_test ::
  "knowledge_test \<Rightarrow> int \<Rightarrow> event list \<Rightarrow> rng \<Rightarrow> (py_error + started) \<times> knowledge_test \<times> rng" where
  "start_event_test kt user_id all_events g =
     (case start_test event_id EventTest (used_events kt) user_id all_events g of
        (r, used', g') \<Rightarrow> (r, kt\<lparr>used_events := used'\<rparr>, g'))"

definition start_figure_test ::
  "knowledge_test \<Rightarrow> int \<Rightarrow> figure list \<Rightarrow> rng \<Rightarrow> (py_error + started) \<times> knowledge_test \<times> rng" where
  "start_figure_test kt user_id all_figures g =
     (case start_test figure_id FigureTest (used_figures kt) user_id all_figures g of
        (r, used', g') \<Rightarrow> (r, kt\<lparr>used_figures := used'\<rparr>, g'))"

definition start_achievement_test ::
  "knowledge_test \<Rightarrow> int \<Rightarrow> figure list \<Rightarrow> rng \<Rightarrow> (py_error + started) \<times> knowledge_test \<times> rng" where
  "start_achievement_test kt user_id all_figures g =
     (case start_test figure_id AchievementTest (used_figures kt) user_id all_figures g of
        (r, used', g') \<Rightarrow> (r, kt\<lparr>used_figures := used'\<rparr>, g'))"

text \<open>
  \<open>check_answer\<close>: the verdict on the answer and the statistics with the result
  recorded; without a current test the answer is wrong and nothing is recorded.
  The labels are the strings \<open>"\<dots>: "\<close> of the source, as code points.
\<close>

definition combined_rule :: "ustring \<Rightarrow> ustring \<Rightarrow> bool" where
  "combined_rule user_answer correct_answer =
     (let similarity = calculate_similarity user_answer correct_answer;
          keywords = extract_keywords correct_answer;
          keyword_match = check_keywords user_answer keywords
      in 3 / 5 \<le> similarity \<or> 7 / 10 \<le> keyword_match)"

definition label_date :: ustring where
  "label_date = [1044, 1072, 1090, 1072, 58, 32]"

definition label_event :: ustring where
  "label_event = [1057, 1086, 1073, 1099, 1090, 1080, 1077, 58, 32]"

definition label_figure :: ustring where
  "label_figure = [1044, 1077, 1103, 1090, 1077, 1083, 1100, 58, 32]"

definition label_achievement :: ustring where
  "label_achievement = [1044, 1086, 1089, 1090, 1080, 1078, 1077, 1085, 1080, 1077, 58, 32]"

definition check_answer ::
  "current_test option \<Rightarrow> ustring \<Rightarrow> int \<Rightarrow> int \<Rightarrow> stats_manager \<Rightarrow> bool \<times> stats_manager" where
  "check_answer current user_answer user_id current_time sm =
     (case current of
        None \<Rightarrow> (False, sm)
      | Some (DateTest ev) \<Rightarrow>
          (let ok = combined_rule user_answer (description ev)
           in (ok, add_test_result sm user_id (ustr ''date'') (label_date @ date ev) ok current_time))
      | Some (EventTest ev) \<Rightarrow>
          (let ok = check_date_answer user_answer (date ev)
           in (ok, add_test_result sm user_id (ustr ''event'') (label_event @ description ev)
                     ok current_time))
      | Some (FigureTest fig) \<Rightarrow>
          (let ok = combined_rule user_answer (achievement fig)
           in (ok, add_test_result sm user_id (ustr ''figure'') (label_figure @ name fig)
                     ok current_time))
      | Some (AchievementTest fig) \<Rightarrow>
          (let ok = (4 / 5 \<le> calculate_name_similarity user_answer (name fig))
           in (ok, add_test_result sm user_id (ustr ''achievement'')
                     (label_achievement @ achievement fig) ok current_time)))"

text \<open>
  \<open>start_marathon\<close>: the sequence of question types. \<open>fill\<close> is the \<open>while\<close> loop,
  \<open>slice_to\<close> is \<open>questions[:n]\<close> (a negative \<open>n\<close> counts from the end).
\<close>

definition question_types :: "ustring list" where
  "question_types = [ustr ''date'', ustr ''event'', ustr ''figure'', ustr ''achievement'']"

function fill :: "ustring list \<Rightarrow> int \<Rightarrow> rng \<Rightarrow> (py_error + ustring list) \<times> rng" where
  "fill qs questions_count g =
     (if int (length qs) < questions_count then
        (case choice question_types g of
           (Inl e, g') \<Rightarrow> (Inl e, g')
         | (Inr t, g') \<Rightarrow> fill (qs @ [t]) questions_count g')
      else (Inr qs, g))"
  by pat_completeness auto
termination
  by (relation "measure (\<lambda>(qs, n, g). nat (n - int (length qs)))") auto

definition slice_to :: "int \<Rightarrow> 'a list \<Rightarrow> 'a list" where
  "slice_to n xs = (if 0 \<le> n then take (nat n) xs else take (nat (int (length xs) + n)) xs)"

record marathon =
  questions_count :: int
  current_question :: int
  correct_answers :: int
  m_questions :: "ustring list"
  m_history :: "(ustring \<times> bool) list"

definition start_marathon :: "int \<Rightarrow> rng \<Rightarrow> (py_error + marathon) \<times> rng" where
  "start_marathon n g =
     (case shuffle question_types g of
        (base_questions, g1) \<Rightarrow>
          (case fill base_questions n g1 of
             (Inl e, g2) \<Rightarrow> (Inl e, g2)
           | (Inr qs, g2) \<Rightarrow>
               (case shuffle (slice_to n qs) g2 of
                  (qs', g3) \<Rightarrow>
                    (Inr \<lparr>questions_count = n, current_question = 0, correct_answers = 0,
                          m_questions = qs', m_history = []\<rparr>, g3))))"

section \<open>Keyword extraction: the stop-word filter\<close>

text \<open>Extraction as the source has it, with the stop-word filter taken out.\<close>

definition extract_keywords_unfiltered :: "ustring \<Rightarrow> ustring list" where
  "extract_keywords_unfiltered text =
     (let text1 = lower text;
          text2 = fold (\<lambda>char t. replace char SPACE t) punctuation text1;
          words = split text2
      in filter (\<lambda>word. 3 < length word) words)"

lemma stop_words_short: "w \<in> set stop_words \<Longrightarrow> length w \<le> 3"
  by (auto simp: stop_words_def)

text \<open>
  C9: in \<open>_extract_keywords\<close> the stop-word filter is redundant. Every stop word has at
  most 3 characters and only words of more than 3 characters are kept, so extraction
  without the filter gives the same list for every text.
\<close>

theorem stop_word_filter_redundant:
  "extract_keywords text = extract_keywords_unfiltered text"
proof -
  have "(3 < length w \<and> w \<notin> set stop_words) = (3 < length w)" for w
    using stop_words_short[of w] by auto
  then show ?thesis
    by (simp add: extract_keywords_def extract_keywords_unfiltered_def)
qed

section \<open>Grading by similarity and keywords\<close>

text \<open>
  C4: for a question by date (the reference is the event's description) and a question
  by figure name (the reference is the figure's achievement), the answer is marked
  correct exactly when the similarity of answer and reference is at least 0.6 or the
  share of the reference's keywords found in the answer is at least 0.7; the share over
  an empty keyword list is 0.
\<close>

theorem combined_rule_grading:
  "fst (check_answer (Some (DateTest ev)) answer uid now sm) =
     (3 / 5 \<le> calculate_similarity answer (description ev)
      \<or> 7 / 10 \<le> check_keywords answer (extract_keywords (description ev)))
   \<and> fst (check_answer (Some (FigureTest fig)) answer uid now sm) =
     (3 / 5 \<le> calculate_similarity answer (achievement fig)
      \<or> 7 / 10 \<le> check_keywords answer (extract_keywords (achievement fig)))
   \<and> check_keywords answer [] = 0"
  by (simp add: check_answer_def combined_rule_def check_keywords_def Let_def)

section \<open>Starting a question on an empty database\<close>

lemma select_fact_empty:
  "select_fact fid used uid [] g = (Inl IndexError, used(uid \<mapsto> []), g)"
  by (simp add: select_fact_def choice_def)

lemma select_fact_nonempty:
  "pool \<noteq> [] \<Longrightarrow> \<exists>item used' g'. select_fact fid used uid pool g = (Inr item, used', g')"
  by (auto simp: select_fact_def choice_def Let_def split: prod.splits)

lemma start_test_result:
  "fst (start_test fid mk used uid pool g) =
     (if pool = [] then Inl IndexError
      else (case fst (select_fact fid used uid pool g) of
              Inl e \<Rightarrow> Inl e
            | Inr item \<Rightarrow> Inr (Asked (mk item))))"
  using select_fact_nonempty[of pool fid used uid g]
  by (auto simp: start_test_def select_fact_empty empty_fact_def split: prod.splits sum.splits)

text \<open>
  C2: the claim is that a question started on an empty pool surfaces a "no data"
  condition and raises nothing. The code does not: on an empty list of events (or of
  figures) \<open>random.choice\<close> raises \<open>IndexError\<close> before the \<open>if not event\<close> that
  would send the "no data" message, and that message is sent for no pool at all.
  The selection fails exactly when the pool is empty.
\<close>

theorem empty_pool_raises:
  "fst (start_date_test kt uid [] g) = Inl IndexError
   \<and> fst (start_figure_test kt uid [] g) = Inl IndexError
   \<and> fst (start_date_test kt uid all_events g) \<noteq> Inr NoData
   \<and> fst (start_figure_test kt uid all_figures g) \<noteq> Inr NoData
   \<and> (fst (start_date_test kt uid all_events g) = Inl IndexError) = (all_events = [])
   \<and> (fst (start_figure_test kt uid all_figures g) = Inl IndexError) = (all_figures = [])"
proof -
  have d: "fst (start_date_test kt uid evs g)
           = fst (start_test event_id DateTest (used_events kt) uid evs g)" for evs
    by (simp add: start_date_test_def split: prod.splits)
  have f: "fst (start_figure_test kt uid figs g)
           = fst (start_test figure_id FigureTest (used_figures kt) uid figs g)" for figs
    by (simp add: start_figure_test_def split: prod.splits)
  have s: "fst (start_test fid mk used uid pool g) \<noteq> Inr NoData
            \<and> (fst (start_test fid mk used uid pool g) = Inl IndexError) = (pool = [])"
    for fid :: "'f \<Rightarrow> int" and mk used pool
    using select_fact_nonempty[of pool fid used uid g]
    by (auto simp: start_test_result split: sum.splits)
  show ?thesis
    unfolding d f using s[of event_id DateTest] s[of figure_id FigureTest] by simp
qed

section \<open>The date check: periods\<close>

text \<open>The number a string of decimal digits stands for.\<close>

definition decimal :: "ustring \<Rightarrow> int" where
  "decimal s = foldl (\<lambda>acc c. 10 * acc + (c - 48)) 0 s"

lemma digit_not_space: "is_digit_char c \<Longrightarrow> \<not> isspace c"
  by (auto simp: is_digit_char_def isspace_def)

lemma strip_id: "s \<noteq> [] \<Longrightarrow> \<not> isspace (hd s) \<Longrightarrow> \<not> isspace (last s) \<Longrightarrow> strip s = s"
proof -
  assume s: "s \<noteq> []" and h: "\<not> isspace (hd s)" and l: "\<not> isspace (last s)"
  have 1: "dropWhile isspace s = s" using s h by (cases s) auto
  have 2: "dropWhile isspace (rev s) = rev s" using s l by (cases "rev s") (auto simp: last_rev hd_rev)
  show ?thesis by (simp add: strip_def 1 2)
qed

lemma strip_digits: "isdigit s \<Longrightarrow> strip s = s"
proof -
  assume d: "isdigit s"
  then have ne: "s \<noteq> []" and all: "\<forall>c \<in> set s. is_digit_char c"
    by (auto simp: isdigit_def list_all_iff)
  have "hd s \<in> set s" "last s \<in> set s" using ne by auto
  with all have "\<not> isspace (hd s)" "\<not> isspace (last s)" using digit_not_space by blast+
  with ne show ?thesis by (rule strip_id)
qed

lemma lower_digits: "isdigit s \<Longrightarrow> lower s = s"
  by (auto simp: isdigit_def list_all_iff lower_def lower_char_def is_digit_char_def intro!: map_idI)

lemma digits_value_digits:
  "list_all is_digit_char s \<Longrightarrow>
     digits_value acc prev s =
       (if s = [] then (if prev then Some acc else None)
        else Some (foldl (\<lambda>acc c. 10 * acc + (c - 48)) acc s))"
  by (induction s arbitrary: acc prev) auto

lemma py_int_digits: "isdigit s \<Longrightarrow> py_int s = Some (decimal s)"
proof -
  assume d: "isdigit s"
  then obtain c cs where s: "s = c # cs" by (cases s) (auto simp: isdigit_def)
  from d s have c: "is_digit_char c" by (simp add: isdigit_def)
  then have "c \<noteq> 45" "c \<noteq> 43" by (auto simp: is_digit_char_def)
  moreover have "digits_value 0 False (c # cs) = Some (foldl (\<lambda>acc c. 10 * acc + (c - 48)) 0 (c # cs))"
    using d s by (subst digits_value_digits) (auto simp: isdigit_def)
  ultimately show ?thesis
    using strip_digits[OF d] s by (simp add: py_int_def decimal_def)
qed

lemma split_on_from_nosep: "sep \<notin> set s \<Longrightarrow> split_on_from sep cur s = [cur @ s]"
  by (induction s arbitrary: cur) auto

lemma split_on_from_app:
  "sep \<notin> set a \<Longrightarrow> split_on_from sep cur (a @ sep # r) = (cur @ a) # split_on_from sep [] r"
  by (induction a arbitrary: cur) auto

lemma digits_no_dash: "isdigit s \<Longrightarrow> DASH \<notin> set s"
  by (auto simp: isdigit_def list_all_iff is_digit_char_def DASH_def)

lemma parse_bounds_period:
  "isdigit a \<Longrightarrow> isdigit b \<Longrightarrow> parse_bounds (a @ DASH # b) = Some (decimal a, decimal b)"
  using split_on_from_app[of DASH a "[]" b] split_on_from_nosep[of DASH b "[]"]
  by (simp add: parse_bounds_def split_on_def digits_no_dash py_int_digits)

lemma period_general:
  assumes a: "isdigit a" and b: "isdigit b" and u: "isdigit user"
      and c: "lower (strip reference) = a @ [DASH] @ b"
  shows "check_date_answer user reference = (decimal a \<le> decimal user \<and> decimal user \<le> decimal b)"
proof -
  have u': "lower (strip user) = user" using u by (simp add: strip_digits lower_digits)
  have ne: "user \<noteq> a @ DASH # b" using digits_no_dash[OF u] by auto
  have c': "lower (strip reference) = a @ DASH # b" using c by simp
  have t: "try_period user (a @ DASH # b) = Some (decimal a \<le> decimal user \<and> decimal user \<le> decimal b)"
    using u by (simp add: try_period_def parse_bounds_period[OF a b] py_int_digits[OF u])
  show ?thesis
    using ne by (simp add: check_date_answer_def u' c' t Let_def)
qed

lemma e1: "check_date_answer (ustr ''1941-1944'') (ustr ''1941-1944'')" by code_simp
lemma e2: "check_date_answer (ustr ''1942'') (ustr ''1941-1944'')" by code_simp
lemma e3: "check_date_answer (ustr ''1569'') (ustr ''1569'')" by code_simp
lemma e4: "\<not> check_date_answer (ustr ''1940'') (ustr ''1941-1944'')" by code_simp

text \<open>
  C3: when the correct answer, trimmed and in lower case, is a period \<open>a-b\<close> of two
  digit strings and the user's answer is a non-empty string of digits, the check is
  true exactly when the user's number lies between the two bounds, both included.
  The four examples of the specification hold: "1941-1944" and "1942" are right for
  "1941-1944", "1569" is right for "1569", and "1940" is wrong for "1941-1944".
\<close>

theorem period_answer:
  "(isdigit a \<and> isdigit b \<and> isdigit user \<and> lower (strip reference) = a @ [DASH] @ b \<longrightarrow>
      check_date_answer user reference = (decimal a \<le> decimal user \<and> decimal user \<le> decimal b))
   \<and> check_date_answer (ustr ''1941-1944'') (ustr ''1941-1944'')
   \<and> check_date_answer (ustr ''1942'') (ustr ''1941-1944'')
   \<and> check_date_answer (ustr ''1569'') (ustr ''1569'')
   \<and> \<not> check_date_answer (ustr ''1940'') (ustr ''1941-1944'')"
  using period_general[of a b user reference] e1 e2 e3 e4 by blast

theorem period_answer_witness:
  "isdigit (ustr ''1863'') \<and> isdigit (ustr ''1864'') \<and> isdigit (ustr ''1865'')
   \<and> lower (strip (ustr '' 1863-1864'')) = ustr ''1863'' @ [DASH] @ ustr ''1864''
   \<and> check_date_answer (ustr ''1865'') (ustr '' 1863-1864'')
       = (decimal (ustr ''1863'') \<le> decimal (ustr ''1865'')
          \<and> decimal (ustr ''1865'') \<le> decimal (ustr ''1864''))
   \<and> \<not> check_date_answer (ustr ''1865'') (ustr '' 1863-1864'')"
proof -
  have h: "isdigit (ustr ''1863'') \<and> isdigit (ustr ''1864'') \<and> isdigit (ustr ''1865'')
    \<and> lower (strip (ustr '' 1863-1864'')) = ustr ''1863'' @ [DASH] @ ustr ''1864''"
    by code_simp
  have d: "\<not> (decimal (ustr ''1863'') \<le> decimal (ustr ''1865'')
          \<and> decimal (ustr ''1865'') \<le> decimal (ustr ''1864''))"
    by code_simp
  from period_answer[of "ustr ''1863''" "ustr ''1864''" "ustr ''1865''" "ustr '' 1863-1864''"] h d
  show ?thesis by blast
qed

section \<open>The similarity of a string with itself\<close>

text \<open>
  For the proof: \<open>clean_run a m\<close> is the number of elements just before position \<open>m\<close>
  that form an unbroken run of elements that are not popular.
\<close>

fun clean_run :: "ustring \<Rightarrow> nat \<Rightarrow> nat" where
  "clean_run a 0 = 0"
| "clean_run a (Suc m) = (if bpopular a (a ! m) then 0 else clean_run a m + 1)"

lemma clean_run_le: "clean_run a m \<le> m"
  by (induction m) auto

lemma inner_loop_append:
  "\<forall>j \<in> set xs. j < bhi \<Longrightarrow>
     inner_loop d i blo bhi (xs @ ys) st = inner_loop d i blo bhi ys (inner_loop d i blo bhi xs st)"
proof (induction xs arbitrary: st)
  case Nil
  then show ?case by simp
next
  case (Cons x xs)
  obtain new bi bj bs where st: "st = (new, bi, bj, bs)" by (metis prod_cases4)
  from Cons show ?case unfolding st by (simp add: Let_def)
qed

lemma inner_loop_entries:
  "\<forall>j \<in> set js. blo \<le> j \<and> j < bhi \<Longrightarrow>
     set (fst (inner_loop d i blo bhi js (new, best))) =
       (\<lambda>j. (j, j2lenget d j + 1)) ` set js \<union> set new"
proof (induction js arbitrary: new best)
  case Nil
  then show ?case by simp
next
  case (Cons j js)
  obtain bi bj bs where b: "best = (bi, bj, bs)" by (metis prod_cases3)
  from Cons show ?case unfolding b by (auto simp: Let_def)
qed

lemma inner_loop_keep:
  "\<forall>j \<in> set js. blo \<le> j \<and> j < bhi \<and> j2lenget d j + 1 \<le> bs \<Longrightarrow>
     snd (inner_loop d i blo bhi js (new, bi, bj, bs)) = (bi, bj, bs)"
  by (induction js arbitrary: new) (auto simp: Let_def)

lemma j2lenget_empty: "j2lenget [] j = 0"
  by (simp add: j2lenget_def split: nat.splits)

lemma j2lenget_entries:
  assumes "set d = (\<lambda>j. (j, f j)) ` J"
  shows "j2lenget d 0 = 0"
    and "j \<in> J \<Longrightarrow> j2lenget d (Suc j) = f j"
    and "j \<notin> J \<Longrightarrow> j2lenget d (Suc j) = 0"
proof -
  show "j2lenget d 0 = 0" by (simp add: j2lenget_def)
  show "j2lenget d (Suc j) = f j" if "j \<in> J"
  proof -
    from that assms have "j \<in> fst ` set d" by force
    then obtain k where k: "map_of d j = Some k"
      by (cases "map_of d j") (auto simp: map_of_eq_None_iff)
    then have "(j, k) \<in> set d" by (rule map_of_SomeD)
    with assms have "k = f j" by auto
    with k show ?thesis by (simp add: j2lenget_def)
  qed
  show "j2lenget d (Suc j) = 0" if "j \<notin> J"
  proof -
    from that assms have "j \<notin> fst ` set d" by force
    then have "map_of d j = None" by (simp add: map_of_eq_None_iff)
    then show ?thesis by (simp add: j2lenget_def)
  qed
qed


text \<open>
  What holds after the rows below \<open>m\<close> when a string is matched against itself: the
  lengths in \<open>j2len\<close> are bounded by the clean runs, the entry on the diagonal is the
  clean run itself, and the best match lies on the diagonal and is at least as long as
  every clean run seen.
\<close>

definition diag_inv :: "ustring \<Rightarrow> nat \<Rightarrow> (nat \<times> nat) list \<times> match \<Rightarrow> bool" where
  "diag_inv a m st =
     (case st of (d, bi, bj, bs) \<Rightarrow>
        (\<forall>j. j2lenget d j \<le> clean_run a j) \<and> (\<forall>j. j2lenget d j \<le> clean_run a m)
        \<and> j2lenget d m = clean_run a m \<and> (\<forall>i \<le> m. clean_run a i \<le> bs)
        \<and> bi = bj \<and> bi + bs \<le> m)"

lemma diag_row_popular:
  assumes inv: "diag_inv a m (d, bi, bj, bs)" and pop: "bpopular a (a ! m)"
  shows "diag_inv a (Suc m) (inner_loop d m 0 (length a) (b2j a (a ! m)) ([], bi, bj, bs))"
proof -
  have r: "inner_loop d m 0 (length a) (b2j a (a ! m)) ([], bi, bj, bs) = ([], bi, bj, bs)"
    using pop by (simp add: b2j_def)
  have c: "\<forall>i \<le> Suc m. clean_run a i \<le> bs"
  proof (intro allI impI)
    fix i assume "i \<le> Suc m"
    then consider "i \<le> m" | "i = Suc m" by linarith
    then show "clean_run a i \<le> bs"
    proof cases
      case 1 with inv show ?thesis by (simp add: diag_inv_def)
    next
      case 2 with pop show ?thesis by simp
    qed
  qed
  from inv have "bi = bj" "bi + bs \<le> Suc m" by (auto simp: diag_inv_def)
  with c pop show ?thesis unfolding r by (simp add: diag_inv_def j2lenget_empty)
qed

lemma diag_row_clean:
  assumes inv: "diag_inv a m (d, bi, bj, bs)" and m: "m < length a"
    and npop: "\<not> bpopular a (a ! m)"
  shows "diag_inv a (Suc m) (inner_loop d m 0 (length a) (b2j a (a ! m)) ([], bi, bj, bs))"
proof -
  define n where "n = length a"
  define K where "K j = j2lenget d j + 1" for j
  define R where "R = clean_run a m + 1"
  define P where "P j = (a ! j = a ! m)" for j
  define js1 where "js1 = filter P [0..<m]"
  define js2 where "js2 = filter P [Suc m..<n]"
  have A: "j2lenget d j \<le> clean_run a j" and B: "j2lenget d j \<le> clean_run a m" for j
    using inv by (auto simp: diag_inv_def)
  have E: "j2lenget d m = clean_run a m" and C: "\<And>i. i \<le> m \<Longrightarrow> clean_run a i \<le> bs"
    and D: "bi = bj" "bi + bs \<le> m"
    using inv by (auto simp: diag_inv_def)
  have R: "clean_run a (Suc m) = R" using npop by (simp add: R_def)
  have upt: "[0..<n] = [0..<m] @ m # [Suc m..<n]"
    using m by (metis n_def le0 upt_add_eq_append upt_conv_Cons le_add_diff_inverse less_imp_le_nat add_0)
  have js: "b2j a (a ! m) = js1 @ m # js2"
  proof -
    have Peq: "P = (\<lambda>j. a ! j = a ! m)" by (simp add: P_def fun_eq_iff)
    show ?thesis
      using npop by (simp add: b2j_def n_def[symmetric] upt js1_def js2_def Peq)
  qed
  have in1: "j \<in> set js1 \<Longrightarrow> j < m \<and> j < n \<and> P j" for j using m by (auto simp: js1_def n_def)
  have in2: "j \<in> set js2 \<Longrightarrow> m < j \<and> j < n \<and> P j" for j by (auto simp: js2_def)
  have KA: "K j \<le> clean_run a (Suc j)" if "P j" for j
    using that npop A[of j] by (simp add: K_def P_def)
  have KB: "K j \<le> R" for j using B[of j] by (simp add: K_def R_def)
  have KE: "K m = R" using E by (simp add: K_def R_def)
  have k1: "\<forall>j \<in> set js1. 0 \<le> j \<and> j < n \<and> j2lenget d j + 1 \<le> bs"
  proof
    fix j assume j: "j \<in> set js1"
    then have "K j \<le> clean_run a (Suc j)" using KA in1 by blast
    also have "\<dots> \<le> bs" using C[of "Suc j"] in1[OF j] by simp
    finally show "0 \<le> j \<and> j < n \<and> j2lenget d j + 1 \<le> bs" using in1[OF j] by (simp add: K_def)
  qed
  obtain new1 where s1: "inner_loop d m 0 n js1 ([], bi, bj, bs) = (new1, bi, bj, bs)"
    using inner_loop_keep[OF k1, of m "[]" bi bj] by (metis prod.collapse)
  define best2 where "best2 = (if bs < R then (Suc m - R, Suc m - R, R) else (bi, bj, bs))"
  have k2: "\<forall>j \<in> set js2. 0 \<le> j \<and> j < n \<and> j2lenget d j + 1 \<le> snd (snd best2)"
  proof
    fix j assume j: "j \<in> set js2"
    have "K j \<le> R" by (rule KB)
    also have "R \<le> snd (snd best2)" by (simp add: best2_def)
    finally show "0 \<le> j \<and> j < n \<and> j2lenget d j + 1 \<le> snd (snd best2)"
      using in2[OF j] by (simp add: K_def)
  qed
  have s2: "snd (inner_loop d m 0 n js2 ((m, K m) # new1, best2)) = best2"
    using inner_loop_keep[OF k2, of m "(m, K m) # new1" "fst best2" "fst (snd best2)"] by simp
  have lt1: "\<forall>j \<in> set js1. j < n" using in1 by blast
  have whole: "inner_loop d m 0 n (js1 @ m # js2) ([], bi, bj, bs)
                = inner_loop d m 0 n js2 ((m, K m) # new1, best2)"
    unfolding inner_loop_append[OF lt1] s1
  proof -
    have Rm: "R = Suc (j2lenget d m)" using E by (simp add: R_def)
    show "inner_loop d m 0 n (m # js2) (new1, bi, bj, bs)
                = inner_loop d m 0 n js2 ((m, K m) # new1, best2)"
      using m by (simp add: n_def K_def best2_def Rm Let_def)
  qed
  have all: "\<forall>j \<in> set (js1 @ m # js2). 0 \<le> j \<and> j < n"
    using in1 in2 m by (auto simp: n_def)
  have ents: "set (fst (inner_loop d m 0 n (js1 @ m # js2) ([], bi, bj, bs)))
                = (\<lambda>j. (j, K j)) ` set (js1 @ m # js2)"
    using inner_loop_entries[OF all, of d m "[]" "(bi, bj, bs)"] by (simp add: K_def)
  obtain d' where res: "inner_loop d m 0 n (js1 @ m # js2) ([], bi, bj, bs) = (d', best2)"
    using whole s2 by (metis prod.collapse)
  have d': "set d' = (\<lambda>j. (j, K j)) ` set (js1 @ m # js2)" using ents res by simp
  have Pall: "j \<in> set (js1 @ m # js2) \<Longrightarrow> P j" for j using in1 in2 by (auto simp: P_def)
  have g: "j2lenget d' j \<le> clean_run a j \<and> j2lenget d' j \<le> R" for j
  proof (cases j)
    case 0
    then show ?thesis using j2lenget_entries(1)[OF d'] by simp
  next
    case (Suc j')
    show ?thesis
    proof (cases "j' \<in> set (js1 @ m # js2)")
      case True
      then have "j2lenget d' (Suc j') = K j'" using j2lenget_entries(2)[OF d'] by blast
      then show ?thesis using Suc KA[OF Pall[OF True]] KB[of j'] by simp
    next
      case False
      then have "j2lenget d' (Suc j') = 0" using j2lenget_entries(3)[OF d'] by blast
      then show ?thesis using Suc by simp
    qed
  qed
  have e: "j2lenget d' (Suc m) = R"
    using j2lenget_entries(2)[OF d', of m] KE by simp
  have c: "\<forall>i \<le> Suc m. clean_run a i \<le> snd (snd best2)"
  proof (intro allI impI)
    fix i assume "i \<le> Suc m"
    then consider "i \<le> m" | "i = Suc m" by linarith
    then show "clean_run a i \<le> snd (snd best2)"
    proof cases
      case 1
      then have "clean_run a i \<le> bs" by (rule C)
      then show ?thesis by (simp add: best2_def)
    next
      case 2
      then show ?thesis using R by (simp add: best2_def)
    qed
  qed
  have Rle: "R \<le> Suc m" using clean_run_le[of a "Suc m"] R by simp
  have dg: "fst best2 = fst (snd best2)" "fst best2 + snd (snd best2) \<le> Suc m"
    using D Rle by (auto simp: best2_def)
  obtain bi2 bj2 bs2 where b2: "best2 = (bi2, bj2, bs2)" by (metis prod_cases3)
  show ?thesis
    unfolding js n_def[symmetric] res b2
    using g e c dg R unfolding b2 by (simp add: diag_inv_def)
qed


lemma outer_loop_Suc:
  "outer_loop a b 0 (Suc m) blo bhi =
     (case outer_loop a b 0 m blo bhi of
        (d, best) \<Rightarrow> inner_loop d m blo bhi (b2j b (a ! m)) ([], best))"
  by (simp add: outer_loop_def split: prod.splits)

lemma outer_loop_diag:
  "m \<le> length a \<Longrightarrow> diag_inv a m (outer_loop a a 0 m 0 (length a))"
proof (induction m)
  case 0
  then show ?case by (simp add: outer_loop_def diag_inv_def j2lenget_empty)
next
  case (Suc m)
  obtain d bi bj bs where o: "outer_loop a a 0 m 0 (length a) = (d, bi, bj, bs)"
    by (metis prod_cases4)
  from Suc have inv: "diag_inv a m (d, bi, bj, bs)" and m: "m < length a" by (simp_all add: o)
  show ?case
    unfolding outer_loop_Suc o
    using diag_row_popular[OF inv] diag_row_clean[OF inv m]
    by (cases "bpopular a (a ! m)") simp_all
qed

lemma extend_left_diag:
  "extend_left a a False 0 0 (d, d, s) = (0, 0, s + d)"
proof (induction d arbitrary: s)
  case 0
  then show ?case by simp
next
  case (Suc d)
  have "extend_left a a False 0 0 (Suc d, Suc d, s) = extend_left a a False 0 0 (d, d, s + 1)"
    by (subst extend_left.simps) (simp add: bjunk_def)
  then show ?case using Suc[of "s + 1"] by simp
qed

lemma extend_right_diag:
  "s \<le> n \<Longrightarrow> extend_right a a False n n (0, 0, s) = (0, 0, n)"
proof (induction "n - s" arbitrary: s)
  case 0
  then show ?case by simp
next
  case (Suc k)
  then have lt: "s < n" and k: "k = n - (s + 1)" by simp_all
  have "extend_right a a False n n (0, 0, s) = extend_right a a False n n (0, 0, s + 1)"
    using lt by (subst extend_right.simps) (simp add: bjunk_def)
  then show ?case using Suc(1)[OF k] lt by simp
qed

lemma extend_left_junk: "extend_left a b True alo blo st = st"
proof -
  obtain i j k where st: "st = (i, j, k)" by (metis prod_cases3)
  show ?thesis unfolding st by (subst extend_left.simps) (simp add: bjunk_def)
qed

lemma extend_right_junk: "extend_right a b True ahi bhi st = st"
proof -
  obtain i j k where st: "st = (i, j, k)" by (metis prod_cases3)
  show ?thesis unfolding st by (subst extend_right.simps) (simp add: bjunk_def)
qed

lemma find_longest_match_self:
  "find_longest_match a a 0 (length a) 0 (length a) = (0, 0, length a)"
proof -
  obtain d bi bj bs where o: "outer_loop a a 0 (length a) 0 (length a) = (d, bi, bj, bs)"
    by (metis prod_cases4)
  from outer_loop_diag[of "length a" a] have dg: "bi = bj" "bi + bs \<le> length a"
    by (simp_all add: o diag_inv_def)
  have 1: "extend_left a a False 0 0 (bi, bj, bs) = (0, 0, bs + bi)"
    unfolding dg(1) by (rule extend_left_diag)
  have 2: "extend_right a a False (length a) (length a) (0, 0, bs + bi) = (0, 0, length a)"
    using dg by (intro extend_right_diag) simp
  show ?thesis
    unfolding find_longest_match_def o snd_conv 1 2 extend_left_junk extend_right_junk ..
qed


lemma matching_loop_self:
  "matching_loop a a [(0, length a, 0, length a)] [] =
     (if a = [] then [] else [(0, 0, length a)])"
proof -
  have "matching_loop a a ((0, length a, 0, length a) # []) [] =
     (if length a \<noteq> 0 then matching_loop a a [] ([] @ [(0, 0, length a)])
      else matching_loop a a [] [])"
    by (subst matching_loop.simps) (simp add: find_longest_match_self)
  then show ?thesis by simp
qed

lemma matching_blocks_self:
  "get_matching_blocks a a =
     (if a = [] then [(0, 0, 0)] else [(0, 0, length a), (length a, length a, 0)])"
  unfolding get_matching_blocks_def matching_loop_self by simp

lemma ratio_self: "ratio a a = 1"
  by (simp add: ratio_def matching_blocks_self calculate_ratio_def)

lemma similarity_tide_diet: "calculate_similarity (ustr ''tide'') (ustr ''diet'') = 1 / 4" by code_simp
lemma similarity_diet_tide: "calculate_similarity (ustr ''diet'') (ustr ''tide'') = 1 / 2" by code_simp

text \<open>
  C5 as stated fails: the similarity is not commutative. The longest matching block is
  searched from the second string's index, the first of several longest blocks wins, and
  the blocks found left and right of it depend on that choice: "tide" against "diet"
  gives 0.25, "diet" against "tide" gives 0.5.
\<close>

theorem similarity_not_commutative:
  "calculate_similarity (ustr ''tide'') (ustr ''diet'')
     \<noteq> calculate_similarity (ustr ''diet'') (ustr ''tide'')"
  unfolding similarity_tide_diet similarity_diet_tide by simp

text \<open>
  C5, amended: the similarity of every string with itself is 1.0 (for the empty string
  as well), also for strings of 200 characters and more, where popular characters are
  left out of the index. Commutativity is not claimed.
\<close>

theorem similarity_reflexive: "calculate_similarity a a = 1"
  by (simp add: calculate_similarity_def ratio_self)

section \<open>The date check: when the bounds do not parse\<close>

lemma lower_idem: "lower (lower s) = lower s"
  by (simp add: lower_def lower_char_def)

lemma not_digit_with_dash: "DASH \<in> set s \<Longrightarrow> \<not> isdigit s"
  using digits_no_dash by blast

lemma try_period_fails:
  "parse_bounds c = None \<or> (\<not> isdigit u \<and> parse_bounds u = None) \<Longrightarrow> try_period u c = None"
  by (auto simp: try_period_def split: option.splits)

lemma cx_eval:
  "check_date_answer (ustr ''1791'') (ustr ''3 may - 5 may 1791'')" by code_simp

lemma cx_parse:
  "DASH \<in> set (lower (strip (ustr ''3 may - 5 may 1791'')))
   \<and> parse_bounds (lower (strip (ustr ''3 may - 5 may 1791''))) = None" by code_simp

lemma cx_sim:
  "calculate_similarity (lower (strip (ustr ''1791''))) (lower (strip (ustr ''3 may - 5 may 1791''))) = 4 / 11"
  by code_simp

text \<open>
  C1 as stated fails: after a parse failure the check does not go straight to the
  similarity. For the correct answer "3 may - 5 may 1791" the bounds do not parse, the
  answer "1791" is accepted by the rule for dates with a month (the token "1791"
  occurs in it), and its similarity to the correct answer is 4/11, below 0.8.
\<close>

theorem parse_failure_not_similarity_only:
  "DASH \<in> set (lower (strip (ustr ''3 may - 5 may 1791'')))
   \<and> parse_bounds (lower (strip (ustr ''3 may - 5 may 1791''))) = None
   \<and> check_date_answer (ustr ''1791'') (ustr ''3 may - 5 may 1791'')
   \<and> \<not> 4 / 5 \<le> calculate_similarity (lower (strip (ustr ''1791'')))
                    (lower (strip (ustr ''3 may - 5 may 1791'')))"
  using cx_eval cx_parse unfolding cx_sim by simp

text \<open>
  C1, amended: when the correct answer contains \<open>-\<close> and its bounds do not parse, or
  the user's answer is not a number and its bounds do not parse, the check goes on with
  the rules that follow the \<open>try\<close>: the answer is right exactly when the rule for dates
  with a month accepts it or the similarity is at least 0.8. (The rule for plain years
  cannot apply: a correct answer with \<open>-\<close> is not numeric.)
\<close>

theorem parse_failure_falls_to_later_rules:
  assumes "DASH \<in> set (lower (strip reference))"
    and "parse_bounds (lower (strip reference)) = None
         \<or> (\<not> isdigit (lower (strip user)) \<and> parse_bounds (lower (strip user)) = None)"
  shows "check_date_answer user reference =
           (month_rule (lower (strip user)) (lower (strip reference))
            \<or> 4 / 5 \<le> calculate_similarity (lower (strip user)) (lower (strip reference)))"
proof -
  define u where "u = lower (strip user)"
  define c where "c = lower (strip reference)"
  have t: "try_period u c = None" using assms(2) unfolding u_def c_def by (rule try_period_fails)
  have nd: "\<not> isdigit c" using assms(1) not_digit_with_dash unfolding c_def by blast
  show ?thesis
  proof (cases "u = c")
    case True
    have "calculate_similarity c c = 1" by (simp add: calculate_similarity_def ratio_self)
    then show ?thesis
      using True by (simp add: check_date_answer_def u_def[symmetric] c_def[symmetric])
  next
    case False
    then show ?thesis
      using assms(1) t nd
      by (simp add: check_date_answer_def u_def[symmetric] c_def[symmetric] after_period_def)
  qed
qed

theorem parse_failure_falls_to_later_rules_witness:
  "DASH \<in> set (lower (strip (ustr ''3 may - 5 may 1791'')))
   \<and> parse_bounds (lower (strip (ustr ''3 may - 5 may 1791''))) = None
   \<and> check_date_answer (ustr ''1791'') (ustr ''3 may - 5 may 1791'') =
       (month_rule (lower (strip (ustr ''1791''))) (lower (strip (ustr ''3 may - 5 may 1791'')))
        \<or> 4 / 5 \<le> calculate_similarity (lower (strip (ustr ''1791'')))
                    (lower (strip (ustr ''3 may - 5 may 1791''))))"
  using parse_failure_falls_to_later_rules[of "ustr ''3 may - 5 may 1791''" "ustr ''1791''"]
    cx_parse by blast

section \<open>The similarity of names\<close>

lemma split_from_parts:
  "p \<in> set (split_from cur s) \<Longrightarrow> \<forall>c \<in> set cur. \<not> isspace c \<Longrightarrow>
     p \<noteq> [] \<and> (\<forall>c \<in> set p. \<not> isspace c)"
proof (induction s arbitrary: cur)
  case Nil
  then show ?case by (auto split: if_splits)
next
  case (Cons x xs)
  show ?case
  proof (cases "isspace x")
    case True
    then show ?thesis using Cons.prems Cons.IH[of "[]"] by (auto split: if_splits)
  next
    case False
    then show ?thesis using Cons.prems Cons.IH[of "cur @ [x]"] by auto
  qed
qed

lemma strip_split_part: "p \<in> set (split s) \<Longrightarrow> strip p = p"
proof -
  assume "p \<in> set (split s)"
  then have ne: "p \<noteq> []" and ns: "\<forall>c \<in> set p. \<not> isspace c"
    using split_from_parts[of p "[]" s] by (simp_all add: split_def)
  have "hd p \<in> set p" "last p \<in> set p" using ne by auto
  with ns have "\<not> isspace (hd p)" "\<not> isspace (last p)" by blast+
  with ne show ?thesis by (rule strip_id)
qed

lemma map_strip_split: "map strip (split s) = split s"
  by (rule map_idI) (rule strip_split_part)

lemma part_matched_ex:
  "part_matched user_parts cp = list_ex (\<lambda>up. 4 / 5 < calculate_similarity up cp) user_parts"
  by (induction user_parts) auto

lemma fold_count:
  "fold (\<lambda>x n. if P x then n + 1 else n) xs (k :: nat) = k + length (filter P xs)"
  by (induction xs arbitrary: k) auto

text \<open>"\<open>Kostyushko\<close>" against "\<open>Tadeush Kostyushko\<close>", in Cyrillic letters.\<close>

lemma name_example:
  "calculate_name_similarity [1050, 1086, 1089, 1090, 1102, 1096, 1082, 1086]
     [1058, 1072, 1076, 1077, 1091, 1096, 32, 1050, 1086, 1089, 1090, 1102, 1096, 1082, 1086]
   = 1 / 2"
  by code_simp

text \<open>
  C6: \<open>_calculate_name_similarity\<close> is 1.0 when the two names are equal in lower case.
  Otherwise it is the number of parts of the correct name for which some part of the
  user's name has a similarity above 0.8 (strictly), divided by the number of parts of
  the correct name, and 0 when the correct name has no part. The parts are the
  whitespace-separated words. A surname alone against first name and surname gives 0.5.
\<close>

theorem name_similarity_parts:
  "calculate_name_similarity user_name correct_name =
     (if lower user_name = lower correct_name then 1
      else if split (lower correct_name) = [] then 0
      else of_nat (length (filter
                     (\<lambda>correct_part.
                        list_ex (\<lambda>user_part. 4 / 5 < calculate_similarity user_part correct_part)
                          (split (lower user_name)))
                     (split (lower correct_name))))
           / of_nat (length (split (lower correct_name))))
   \<and> calculate_name_similarity [1050, 1086, 1089, 1090, 1102, 1096, 1082, 1086]
        [1058, 1072, 1076, 1077, 1091, 1096, 32, 1050, 1086, 1089, 1090, 1102, 1096, 1082, 1086]
       = 1 / 2"
proof -
  have "calculate_name_similarity user_name correct_name =
     (if lower user_name = lower correct_name then 1
      else if split (lower correct_name) = [] then 0
      else of_nat (length (filter
                     (\<lambda>correct_part.
                        list_ex (\<lambda>user_part. 4 / 5 < calculate_similarity user_part correct_part)
                          (split (lower user_name)))
                     (split (lower correct_name))))
           / of_nat (length (split (lower correct_name))))"
    by (simp add: calculate_name_similarity_def Let_def map_strip_split fold_count
          part_matched_ex[abs_def])
  with name_example show ?thesis by blast
qed

section \<open>The question types of a marathon\<close>

lemma randbelow_less: "0 < n \<Longrightarrow> fst (randbelow n g) < n"
  by (cases g) auto

lemma shuffle_from_perm:
  "i < length x \<Longrightarrow>
     length (fst (shuffle_from i x g)) = length x \<and> set (fst (shuffle_from i x g)) = set x"
proof (induction i arbitrary: x g)
  case 0
  then show ?case by simp
next
  case (Suc i)
  obtain j g' where r: "randbelow (Suc i + 1) g = (j, g')" by (cases "randbelow (Suc i + 1) g")
  have j: "j < length x" using randbelow_less[of "Suc i + 1" g] r Suc.prems by simp
  define y where "y = x[Suc i := x ! j, j := x ! Suc i]"
  have y: "length y = length x" "set y = set x"
    using Suc.prems j by (simp_all add: y_def set_swap)
  have "i < length y" using Suc.prems y by simp
  from Suc.IH[OF this, of g'] y show ?case using r by (simp add: y_def)
qed

lemma shuffle_perm:
  "length (fst (shuffle x g)) = length x \<and> set (fst (shuffle x g)) = set x"
proof (cases x)
  case Nil
  then show ?thesis by (simp add: shuffle_def)
next
  case (Cons a as)
  then show ?thesis using shuffle_from_perm[of "length x - 1" x g] by (simp add: shuffle_def)
qed

lemma question_types_nonempty: "question_types \<noteq> []"
  by (simp add: question_types_def)

lemma fill_result:
  "\<exists>extra g'. fill qs n g = (Inr (qs @ extra), g')
               \<and> int (length (qs @ extra)) = max (int (length qs)) n"
proof (induction qs n g rule: fill.induct)
  case (1 qs n g)
  show ?case
  proof (cases "int (length qs) < n")
    case False
    then show ?thesis by (subst fill.simps) simp
  next
    case True
    obtain i g1 where r: "randbelow (length question_types) g = (i, g1)"
      by (cases "randbelow (length question_types) g")
    define t where "t = question_types ! i"
    have c: "choice question_types g = (Inr t, g1)"
      using r question_types_nonempty by (simp add: choice_def t_def)
    from "1.IH"[OF True c[symmetric] refl] obtain extra g'
      where e: "fill (qs @ [t]) n g1 = (Inr ((qs @ [t]) @ extra), g')"
        and l: "int (length ((qs @ [t]) @ extra)) = max (int (length (qs @ [t]))) n"
      by blast
    have "fill qs n g = (Inr (qs @ (t # extra)), g')"
      using True c e by (subst fill.simps) simp
    moreover have "int (length (qs @ (t # extra))) = max (int (length qs)) n"
      using l True by simp
    ultimately show ?thesis by blast
  qed
qed

text \<open>
  C8: for every question count \<open>n\<close> (a count: \<open>n \<ge> 0\<close>) and every outcome of the
  random generator, \<open>start_marathon\<close> raises nothing and the sequence of question types
  has exactly \<open>n\<close> elements; when \<open>n \<ge> 4\<close>, each of the four types occurs in it.
\<close>

theorem marathon_sequence:
  "0 \<le> n \<Longrightarrow>
     \<exists>m g'. start_marathon n g = (Inr m, g') \<and> questions_count m = n
            \<and> int (length (m_questions m)) = n
            \<and> (4 \<le> n \<longrightarrow> set question_types \<subseteq> set (m_questions m))"
proof -
  assume n: "0 \<le> n"
  obtain base g1 where s1: "shuffle question_types g = (base, g1)"
    by (cases "shuffle question_types g")
  have base: "length base = 4" "set base = set question_types"
    using shuffle_perm[of question_types g] s1 by (simp_all add: question_types_def)
  obtain extra g2 where f: "fill base n g1 = (Inr (base @ extra), g2)"
    and fl: "int (length (base @ extra)) = max (int (length base)) n"
    using fill_result[of base n g1] by blast
  define cut where "cut = slice_to n (base @ extra)"
  have cut: "cut = take (nat n) (base @ extra)" using n by (simp add: cut_def slice_to_def)
  have cl: "int (length cut) = n" using fl n unfolding cut by simp
  have cs: "set question_types \<subseteq> set cut" if "4 \<le> n"
  proof -
    have "take (nat n) (base @ extra) = base @ take (nat n - 4) extra"
      using that base(1) by simp
    then show ?thesis using base(2) unfolding cut by simp
  qed
  obtain qs g3 where s2: "shuffle cut g2 = (qs, g3)" by (cases "shuffle cut g2")
  have qs: "length qs = length cut" "set qs = set cut"
    using shuffle_perm[of cut g2] s2 by simp_all
  have "start_marathon n g =
          (Inr \<lparr>questions_count = n, current_question = 0, correct_answers = 0,
                m_questions = qs, m_history = []\<rparr>, g3)"
    by (simp add: start_marathon_def s1 f cut_def[symmetric] s2 del: fill.simps)
  then show ?thesis using qs cl cs by auto
qed

theorem marathon_sequence_witness:
  "(0 :: int) \<le> 5
   \<and> (\<exists>m g'. start_marathon 5 [3, 1, 4, 1, 5, 9, 2, 6] = (Inr m, g')
        \<and> length (m_questions m) = 5 \<and> set question_types \<subseteq> set (m_questions m))"
  using marathon_sequence[of 5 "[3, 1, 4, 1, 5, 9, 2, 6]"] by auto

section \<open>Selecting questions without repeats\<close>

text \<open>The identifiers a user has consumed: the list stored for the user, empty when there is none.\<close>

definition consumed :: "used_ids \<Rightarrow> int \<Rightarrow> int list" where
  "consumed used user_id = (case used user_id of None \<Rightarrow> [] | Some ids \<Rightarrow> ids)"

text \<open>
  \<open>k\<close> selections in a row for one user over one pool (as \<open>k\<close> questions started one
  after the other do): the identifiers chosen, in order. A selection that raises ends
  the run.
\<close>

fun select_many ::
  "('f \<Rightarrow> int) \<Rightarrow> used_ids \<Rightarrow> int \<Rightarrow> 'f list \<Rightarrow> nat \<Rightarrow> rng \<Rightarrow> int list \<times> used_ids \<times> rng" where
  "select_many fact_id used user_id all_facts 0 g = ([], used, g)"
| "select_many fact_id used user_id all_facts (Suc k) g =
     (case select_fact fact_id used user_id all_facts g of
        (Inl e, used', g') \<Rightarrow> ([], used', g')
      | (Inr item, used', g') \<Rightarrow>
          (case select_many fact_id used' user_id all_facts k g' of
             (ids, used'', g'') \<Rightarrow> (fact_id item # ids, used'', g'')))"

lemma choice_nonempty:
  "xs \<noteq> [] \<Longrightarrow> \<exists>item g'. choice xs g = (Inr item, g') \<and> item \<in> set xs"
proof -
  assume ne: "xs \<noteq> []"
  obtain i g' where r: "randbelow (length xs) g = (i, g')" by (cases "randbelow (length xs) g")
  have "i < length xs" using r ne by (cases g) auto
  then show ?thesis using ne r by (simp add: choice_def)
qed

lemma select_fact_fresh:
  assumes "filter (\<lambda>item. fid item \<notin> set (consumed used uid)) pool \<noteq> []"
  shows "\<exists>item g'. select_fact fid used uid pool g
                     = (Inr item, used(uid \<mapsto> consumed used uid @ [fid item]), g')
                   \<and> item \<in> set pool \<and> fid item \<notin> set (consumed used uid)"
proof -
  from choice_nonempty[OF assms, of g] obtain item g'
    where c: "choice (filter (\<lambda>item. fid item \<notin> set (consumed used uid)) pool) g = (Inr item, g')"
      and i: "item \<in> set (filter (\<lambda>item. fid item \<notin> set (consumed used uid)) pool)"
    by blast
  have "select_fact fid used uid pool g
          = (Inr item, used(uid \<mapsto> consumed used uid @ [fid item]), g')"
    using assms c by (simp add: select_fact_def consumed_def Let_def)
  with i show ?thesis by auto
qed

lemma select_fact_reset:
  assumes "filter (\<lambda>item. fid item \<notin> set (consumed used uid)) pool = []" and "pool \<noteq> []"
  shows "\<exists>item g'. select_fact fid used uid pool g = (Inr item, used(uid \<mapsto> [fid item]), g')
                   \<and> item \<in> set pool"
proof -
  from choice_nonempty[OF assms(2), of g] obtain item g'
    where c: "choice pool g = (Inr item, g')" and i: "item \<in> set pool"
    by blast
  have "select_fact fid used uid pool g = (Inr item, used(uid \<mapsto> [fid item]), g')"
    using assms c by (simp add: select_fact_def consumed_def Let_def)
  with i show ?thesis by auto
qed

lemma length_le_pool:
  assumes "distinct (map fid pool)" "distinct c" "set c \<subseteq> fid ` set pool"
  shows "length c \<le> length pool"
proof -
  have "length c = card (set c)" using assms(2) by (simp add: distinct_card)
  also have "\<dots> \<le> card (fid ` set pool)" using assms(3) by (intro card_mono) auto
  also have "\<dots> = length pool" using assms(1) distinct_card[of "map fid pool"] by simp
  finally show ?thesis .
qed

lemma some_fact_left:
  assumes "distinct (map fid pool)" "length c < length pool"
  shows "filter (\<lambda>item. fid item \<notin> set c) pool \<noteq> []"
proof
  assume "filter (\<lambda>item. fid item \<notin> set c) pool = []"
  then have "fid ` set pool \<subseteq> set c" by (auto simp: filter_empty_conv)
  then have "card (fid ` set pool) \<le> card (set c)" by (intro card_mono) auto
  moreover have "card (fid ` set pool) = length pool"
    using assms(1) distinct_card[of "map fid pool"] by simp
  moreover have "card (set c) \<le> length c" by (rule card_length)
  ultimately show False using assms(2) by simp
qed

lemma select_many_distinct:
  assumes d: "distinct (map fid pool)"
  shows "distinct (consumed used uid) \<Longrightarrow> length (consumed used uid) + k \<le> length pool \<Longrightarrow>
     length (fst (select_many fid used uid pool k g)) = k
     \<and> distinct (consumed used uid @ fst (select_many fid used uid pool k g))
     \<and> set (fst (select_many fid used uid pool k g)) \<subseteq> fid ` set pool
     \<and> (k = 0 \<or> consumed (fst (snd (select_many fid used uid pool k g))) uid
           = consumed used uid @ fst (select_many fid used uid pool k g))"
proof (induction k arbitrary: used g)
  case 0
  then show ?case by simp
next
  case (Suc k)
  have "length (consumed used uid) < length pool" using Suc.prems by simp
  from select_fact_fresh[OF some_fact_left[OF d this], of g] obtain item g'
    where s: "select_fact fid used uid pool g
               = (Inr item, used(uid \<mapsto> consumed used uid @ [fid item]), g')"
      and i: "item \<in> set pool" "fid item \<notin> set (consumed used uid)"
    by blast
  define used1 where "used1 = used(uid \<mapsto> consumed used uid @ [fid item])"
  have c1: "consumed used1 uid = consumed used uid @ [fid item]"
    by (simp add: used1_def consumed_def)
  have p1: "distinct (consumed used1 uid)" "length (consumed used1 uid) + k \<le> length pool"
    using Suc.prems i by (simp_all add: c1)
  note ih = Suc.IH[OF p1, of g']
  have sm: "select_many fid used uid pool (Suc k) g =
          (case select_many fid used1 uid pool k g' of
             (ids, used'', g'') \<Rightarrow> (fid item # ids, used'', g''))"
    by (simp add: s used1_def)
  obtain ids used2 g2 where r: "select_many fid used1 uid pool k g' = (ids, used2, g2)"
    by (metis prod_cases3)
  have k0: "consumed used2 uid = consumed used1 uid @ ids"
  proof (cases k)
    case 0
    then show ?thesis using r by simp
  next
    case (Suc k')
    then show ?thesis using ih r by simp
  qed
  show ?case
    using ih i r k0 unfolding sm by (auto simp: c1)
qed


lemma consumed_upd: "consumed (used(uid \<mapsto> ids)) uid = ids"
  by (simp add: consumed_def)

lemma select_fact_step:
  assumes d: "distinct (map fid pool)" and c: "distinct (consumed used uid)"
    and s: "set (consumed used uid) \<subseteq> fid ` set pool" and ne: "pool \<noteq> []"
  shows "case select_fact fid used uid pool g of
           (Inl e, used1, g1) \<Rightarrow> False
         | (Inr item, used1, g1) \<Rightarrow>
             item \<in> set pool
             \<and> distinct (consumed used1 uid) \<and> set (consumed used1 uid) \<subseteq> fid ` set pool
             \<and> length (consumed used1 uid) \<le> length pool
             \<and> (if fid ` set pool \<subseteq> set (consumed used uid)
                then consumed used1 uid = [fid item]
                else fid item \<notin> set (consumed used uid)
                     \<and> consumed used1 uid = consumed used uid @ [fid item])"
proof (cases "filter (\<lambda>item. fid item \<notin> set (consumed used uid)) pool = []")
  case True
  then have all: "fid ` set pool \<subseteq> set (consumed used uid)" by (auto simp: filter_empty_conv)
  from select_fact_reset[OF True ne, of g] obtain item g'
    where r: "select_fact fid used uid pool g = (Inr item, used(uid \<mapsto> [fid item]), g')"
      and i: "item \<in> set pool" by blast
  have "Suc 0 \<le> length pool" using ne by (cases pool) simp_all
  then show ?thesis using all i unfolding r by (simp add: consumed_upd)
next
  case False
  then have nall: "\<not> fid ` set pool \<subseteq> set (consumed used uid)" by (auto simp: filter_empty_conv)
  from select_fact_fresh[OF False, of g] obtain item g'
    where r: "select_fact fid used uid pool g
               = (Inr item, used(uid \<mapsto> consumed used uid @ [fid item]), g')"
      and i: "item \<in> set pool" "fid item \<notin> set (consumed used uid)" by blast
  define c' where "c' = consumed used uid @ [fid item]"
  have c': "distinct c'" "set c' \<subseteq> fid ` set pool" using c s i by (auto simp: c'_def)
  have l: "length c' \<le> length pool" using length_le_pool[OF d c'] .
  have nall': "(fid ` set pool \<subseteq> set (consumed used uid)) = False" using nall by simp
  show ?thesis unfolding r using i c' l by (simp add: consumed_upd nall' c'_def)
qed

text \<open>
  C7: for a pool of K facts with distinct identifiers, a user whose consumed list is empty
  gets K distinct identifiers in K selections in a row (every \<open>k \<le> K\<close> selections
  succeed, are distinct, and are exactly the consumed list afterwards). One selection
  from any consistent state either appends an identifier that was not consumed, or finds
  every identifier of the pool consumed, resets the list and starts it anew with the
  chosen one: a repeat needs a reset. The consumed list stays without repetition,
  inside the pool, and never longer than K.
\<close>

theorem selection_without_repeats:
  assumes "distinct (map fid pool)"
  shows "(consumed used uid = [] \<and> k \<le> length pool \<longrightarrow>
            length (fst (select_many fid used uid pool k g)) = k
          \<and> distinct (fst (select_many fid used uid pool k g))
          \<and> set (fst (select_many fid used uid pool k g)) \<subseteq> fid ` set pool
          \<and> (0 < k \<longrightarrow> consumed (fst (snd (select_many fid used uid pool k g))) uid
                          = fst (select_many fid used uid pool k g)))
       \<and> (distinct (consumed used uid) \<and> set (consumed used uid) \<subseteq> fid ` set pool
            \<and> pool \<noteq> [] \<longrightarrow>
            (case select_fact fid used uid pool g of
               (Inl e, used1, g1) \<Rightarrow> False
             | (Inr item, used1, g1) \<Rightarrow>
                 item \<in> set pool
                 \<and> distinct (consumed used1 uid) \<and> set (consumed used1 uid) \<subseteq> fid ` set pool
                 \<and> length (consumed used1 uid) \<le> length pool
                 \<and> (if fid ` set pool \<subseteq> set (consumed used uid)
                    then consumed used1 uid = [fid item]
                    else fid item \<notin> set (consumed used uid)
                         \<and> consumed used1 uid = consumed used uid @ [fid item])))"
proof -
  have a: "length (fst (select_many fid used uid pool k g)) = k
          \<and> distinct (fst (select_many fid used uid pool k g))
          \<and> set (fst (select_many fid used uid pool k g)) \<subseteq> fid ` set pool
          \<and> (0 < k \<longrightarrow> consumed (fst (snd (select_many fid used uid pool k g))) uid
                          = fst (select_many fid used uid pool k g))"
    if "consumed used uid = []" "k \<le> length pool"
    using select_many_distinct[OF assms, of used uid k g] that by auto
  have a': "consumed used uid = [] \<and> k \<le> length pool \<longrightarrow>
            length (fst (select_many fid used uid pool k g)) = k
          \<and> distinct (fst (select_many fid used uid pool k g))
          \<and> set (fst (select_many fid used uid pool k g)) \<subseteq> fid ` set pool
          \<and> (0 < k \<longrightarrow> consumed (fst (snd (select_many fid used uid pool k g))) uid
                          = fst (select_many fid used uid pool k g))"
    using a by blast
  have b: "distinct (consumed used uid) \<and> set (consumed used uid) \<subseteq> fid ` set pool
            \<and> pool \<noteq> [] \<longrightarrow>
            (case select_fact fid used uid pool g of
               (Inl e, used1, g1) \<Rightarrow> False
             | (Inr item, used1, g1) \<Rightarrow>
                 item \<in> set pool
                 \<and> distinct (consumed used1 uid) \<and> set (consumed used1 uid) \<subseteq> fid ` set pool
                 \<and> length (consumed used1 uid) \<le> length pool
                 \<and> (if fid ` set pool \<subseteq> set (consumed used uid)
                    then consumed used1 uid = [fid item]
                    else fid item \<notin> set (consumed used uid)
                         \<and> consumed used1 uid = consumed used uid @ [fid item]))"
  proof (rule impI)
    assume h: "distinct (consumed used uid) \<and> set (consumed used uid) \<subseteq> fid ` set pool
            \<and> pool \<noteq> []"
    from h have h1: "distinct (consumed used uid)" by blast
    from h have h2: "set (consumed used uid) \<subseteq> fid ` set pool" by blast
    from h have h3: "pool \<noteq> []" by blast
    show "case select_fact fid used uid pool g of
               (Inl e, used1, g1) \<Rightarrow> False
             | (Inr item, used1, g1) \<Rightarrow>
                 item \<in> set pool
                 \<and> distinct (consumed used1 uid) \<and> set (consumed used1 uid) \<subseteq> fid ` set pool
                 \<and> length (consumed used1 uid) \<le> length pool
                 \<and> (if fid ` set pool \<subseteq> set (consumed used uid)
                    then consumed used1 uid = [fid item]
                    else fid item \<notin> set (consumed used uid)
                         \<and> consumed used1 uid = consumed used uid @ [fid item])"
      by (rule select_fact_step[OF assms h1 h2 h3])
  qed
  show ?thesis by (rule conjI[OF a' b])
qed

text \<open>A pool of three events, for the example.\<close>

definition three_events :: "event list" where
  "three_events =
     [\<lparr>event_id = 0, date = ustr ''1569'', description = ustr ''Union of Lublin''\<rparr>,
      \<lparr>event_id = 1, date = ustr ''1791'', description = ustr ''Constitution of 3 May''\<rparr>,
      \<lparr>event_id = 2, date = ustr ''1794'', description = ustr ''Kosciuszko uprising''\<rparr>]"

lemma three_events_run:
  "fst (select_many event_id Map.empty 7 three_events 3 [4, 0, 7]) = [1, 0, 2]"
  by code_simp

lemma three_events_reset:
  "consumed (fst (snd (select_fact event_id [7 \<mapsto> [1, 0, 2]] 7 three_events [3]))) 7 = [0]"
  by code_simp


theorem selection_without_repeats_witness:
  "distinct (map event_id three_events)
   \<and> consumed Map.empty 7 = [] \<and> 3 \<le> length three_events
   \<and> fst (select_many event_id Map.empty 7 three_events 3 [4, 0, 7]) = [1, 0, 2]
   \<and> distinct (fst (select_many event_id Map.empty 7 three_events 3 [4, 0, 7]))
   \<and> consumed (fst (snd (select_many event_id Map.empty 7 three_events 3 [4, 0, 7]))) 7 = [1, 0, 2]
   \<and> distinct (consumed [7 \<mapsto> [1, 0, 2]] 7)
   \<and> set (consumed [7 \<mapsto> [1, 0, 2]] 7) \<subseteq> event_id ` set three_events
   \<and> three_events \<noteq> []
   \<and> consumed (fst (snd (select_fact event_id [7 \<mapsto> [1, 0, 2]] 7 three_events [3]))) 7 = [0]"
proof -
  have h: "distinct (map event_id three_events)" "consumed Map.empty 7 = []"
    "3 \<le> length three_events" "three_events \<noteq> []"
    "distinct (consumed [7 \<mapsto> [1, 0, 2]] 7)"
    "set (consumed [7 \<mapsto> [1, 0, 2]] 7) \<subseteq> event_id ` set three_events"
    by (simp_all add: three_events_def consumed_def)
  from selection_without_repeats[OF h(1), of Map.empty 7 3 "[4, 0, 7]"] h(2,3)
  have "distinct (fst (select_many event_id Map.empty 7 three_events 3 [4, 0, 7]))"
    and "consumed (fst (snd (select_many event_id Map.empty 7 three_events 3 [4, 0, 7]))) 7
          = fst (select_many event_id Map.empty 7 three_events 3 [4, 0, 7])"
    by simp_all
  with h three_events_run three_events_reset show ?thesis by simp
qed

section \<open>Recording results keeps the statistics consistent\<close>

lemma dict_get_set: "dict_get (dict_set d k v) k' = (if k' = k then Some v else dict_get d k')"
  by (induction d) (auto simp: dict_get_def)

lemma dict_set_twice: "dict_set (dict_set d k v0) k v = dict_set d k v"
  by (induction d) auto

lemma keys_dict_set:
  "map fst (dict_set d k v) = (if dict_get d k = None then map fst d @ [k] else map fst d)"
  by (induction d) (auto simp: dict_get_def)

lemma dict_get_None_keys: "(dict_get d k = None) = (k \<notin> set (map fst d))"
  by (simp add: dict_get_def map_of_eq_None_iff)

lemma distinct_dict_set: "distinct (map fst d) \<Longrightarrow> distinct (map fst (dict_set d k v))"
  by (simp add: keys_dict_set dict_get_None_keys)

lemma sum_dict_set:
  fixes f :: "'v \<Rightarrow> int"
  shows "sum_list (map (\<lambda>p. f (snd p)) (dict_set d k v)) =
           sum_list (map (\<lambda>p. f (snd p)) d)
           - (case dict_get d k of None \<Rightarrow> 0 | Some old \<Rightarrow> f old) + f v"
  by (induction d) (auto simp: dict_get_def)

lemma list_all_dict_set:
  "list_all (\<lambda>p. P (snd p)) d \<Longrightarrow> P v \<Longrightarrow> list_all (\<lambda>p. P (snd p)) (dict_set d k v)"
  by (induction d) auto

lemma last_n_short: "length xs \<le> n \<Longrightarrow> last_n n xs = xs"
  by (simp add: last_n_def)

lemma length_last_n: "length (last_n n xs) = min n (length xs)"
  by (simp add: last_n_def)

lemma last_n_absorb: "last_n n (last_n n xs @ ys) = last_n n (xs @ ys)"
proof (cases "length xs \<le> n")
  case True
  then show ?thesis by (simp add: last_n_short)
next
  case False
  then show ?thesis by (simp add: last_n_def add.commute)
qed

text \<open>
  The entries \<open>add_test_result\<close> works on: the stored one, or the one it first creates.
\<close>

definition old_type :: "user_stats \<Rightarrow> ustring \<Rightarrow> type_stats" where
  "old_type us ttype =
     (case dict_get (test_types us) ttype of None \<Rightarrow> \<lparr>total = 0, correct = 0\<rparr> | Some ts \<Rightarrow> ts)"

definition old_question :: "user_stats \<Rightarrow> ustring \<Rightarrow> ustring \<Rightarrow> question_stats" where
  "old_question us ttype question =
     (case dict_get (questions us) question of
        None \<Rightarrow> \<lparr>test_type = ttype, attempts = 0, q_correct = 0, last_attempt = 0, history = []\<rparr>
      | Some qs \<Rightarrow> qs)"

lemma update_user_eq:
  "update_user us ttype question ok tm =
     \<lparr>tests_total = tests_total us + 1,
      tests_correct = (if ok then tests_correct us + 1 else tests_correct us),
      test_types = dict_set (test_types us) ttype
                     \<lparr>total = total (old_type us ttype) + 1,
                      correct = (if ok then correct (old_type us ttype) + 1
                                 else correct (old_type us ttype))\<rparr>,
      questions = dict_set (questions us) question
                    ((old_question us ttype question)
                       \<lparr>attempts := attempts (old_question us ttype question) + 1,
                        q_correct := (if ok then q_correct (old_question us ttype question) + 1
                                      else q_correct (old_question us ttype question)),
                        last_attempt := tm,
                        history := last_n 10 (history (old_question us ttype question)
                                              @ [\<lparr>timestamp = tm, is_correct = ok\<rparr>])\<rparr>)\<rparr>"
proof -
  have h: "(if 10 < length xs then last_n 10 xs else xs) = last_n 10 xs" for xs :: "history_item list"
    by (simp add: last_n_short)
  show ?thesis
    unfolding update_user_def Let_def h
    by (cases "dict_get (test_types us) ttype"; cases "dict_get (questions us) question")
       (simp_all add: old_type_def old_question_def dict_get_set dict_set_twice)
qed


text \<open>
  The statistics of a user are consistent when the keys of each dictionary are distinct,
  the totals are the sums over the test types, and every question has no more correct
  answers than attempts and a history of at most 10 entries. A manager is consistent
  when every user is.
\<close>

definition user_consistent :: "user_stats \<Rightarrow> bool" where
  "user_consistent us =
     (distinct (map fst (test_types us)) \<and> distinct (map fst (questions us))
      \<and> tests_total us = sum_list (map (\<lambda>p. total (snd p)) (test_types us))
      \<and> tests_correct us = sum_list (map (\<lambda>p. correct (snd p)) (test_types us))
      \<and> list_all (\<lambda>p. q_correct (snd p) \<le> attempts (snd p) \<and> length (history (snd p)) \<le> 10)
            (questions us))"

definition manager_consistent :: "stats_manager \<Rightarrow> bool" where
  "manager_consistent sm =
     (distinct (map fst (stats sm)) \<and> list_all (\<lambda>p. user_consistent (snd p)) (stats sm))"

definition old_user :: "stats_manager \<Rightarrow> int \<Rightarrow> user_stats" where
  "old_user sm user_id =
     (case dict_get (stats sm) user_id of None \<Rightarrow> new_user_stats | Some us \<Rightarrow> us)"

text \<open>The history stored for a user and a question (empty when there is none).\<close>

definition history_of :: "stats_manager \<Rightarrow> int \<Rightarrow> ustring \<Rightarrow> history_item list" where
  "history_of sm user_id question =
     (case dict_get (stats sm) user_id of
        None \<Rightarrow> []
      | Some us \<Rightarrow>
          (case dict_get (questions us) question of None \<Rightarrow> [] | Some qs \<Rightarrow> history qs))"

text \<open>
  A sequence of calls of \<open>add_test_result\<close>, each with its user, test type, question,
  result and time; \<open>items_for\<close> are the history entries the calls for one user and
  question produce, in order.
\<close>

type_synonym call = "int \<times> ustring \<times> ustring \<times> bool \<times> int"

definition record_all :: "stats_manager \<Rightarrow> call list \<Rightarrow> stats_manager" where
  "record_all sm calls =
     foldl (\<lambda>sm (user_id, ttype, question, ok, tm).
              add_test_result sm user_id ttype question ok tm) sm calls"

definition items_for :: "int \<Rightarrow> ustring \<Rightarrow> call list \<Rightarrow> history_item list" where
  "items_for user_id question calls =
     map (\<lambda>(u, ttype, q, ok, tm). \<lparr>timestamp = tm, is_correct = ok\<rparr>)
       (filter (\<lambda>(u, ttype, q, ok, tm). u = user_id \<and> q = question) calls)"

lemma list_all_dict_get:
  "list_all (\<lambda>p. P (snd p)) d \<Longrightarrow> dict_get d k = Some v \<Longrightarrow> P v"
  by (auto simp: dict_get_def list_all_iff dest!: map_of_SomeD)

lemma new_user_consistent: "user_consistent new_user_stats"
  by (simp add: user_consistent_def new_user_stats_def)

lemma old_question_ok:
  assumes "user_consistent us"
  shows "q_correct (old_question us ttype q) \<le> attempts (old_question us ttype q)"
proof (cases "dict_get (questions us) q")
  case None
  then show ?thesis by (simp add: old_question_def)
next
  case (Some qs)
  have "list_all (\<lambda>p. q_correct (snd p) \<le> attempts (snd p)) (questions us)"
    using assms by (auto simp: user_consistent_def list_all_iff)
  from list_all_dict_get[OF this Some] show ?thesis using Some by (simp add: old_question_def)
qed

lemma old_type_sum:
  fixes f :: "type_stats \<Rightarrow> int"
  assumes "f \<lparr>total = 0, correct = 0\<rparr> = 0"
  shows "(case dict_get (test_types us) ttype of None \<Rightarrow> 0 | Some old \<Rightarrow> f old)
           = f (old_type us ttype)"
  using assms by (simp add: old_type_def split: option.splits)

lemma update_user_consistent:
  assumes c: "user_consistent us"
  shows "user_consistent (update_user us ttype q ok tm)"
proof -
  have d: "distinct (map fst (test_types us))" "distinct (map fst (questions us))"
    and t: "tests_total us = sum_list (map (\<lambda>p. total (snd p)) (test_types us))"
    and k: "tests_correct us = sum_list (map (\<lambda>p. correct (snd p)) (test_types us))"
    and l: "list_all (\<lambda>p. q_correct (snd p) \<le> attempts (snd p) \<and> length (history (snd p)) \<le> 10)
              (questions us)"
    using c by (simp_all add: user_consistent_def)
  have st: "(case dict_get (test_types us) ttype of None \<Rightarrow> 0 | Some old \<Rightarrow> total old)
              = total (old_type us ttype)"
    by (rule old_type_sum) simp
  have sc: "(case dict_get (test_types us) ttype of None \<Rightarrow> 0 | Some old \<Rightarrow> correct old)
              = correct (old_type us ttype)"
    by (rule old_type_sum) simp
  have q: "q_correct (old_question us ttype q) \<le> attempts (old_question us ttype q)"
    by (rule old_question_ok[OF c])
  show ?thesis
    unfolding update_user_eq user_consistent_def
    using d t k q
    by (simp add: distinct_dict_set sum_dict_set st sc length_last_n
          list_all_dict_set[OF l])
qed

lemma add_test_result_eq:
  "add_test_result sm user_id ttype q ok tm =
     \<lparr>stats = dict_set (stats sm) user_id (update_user (old_user sm user_id) ttype q ok tm),
      changes_count = auto_save (changes_count sm)\<rparr>"
  by (cases "dict_get (stats sm) user_id")
     (simp_all add: add_test_result_def get_or_create_user_stats_def old_user_def Let_def
        dict_get_set dict_set_twice)

lemma old_user_consistent: "manager_consistent sm \<Longrightarrow> user_consistent (old_user sm user_id)"
proof (cases "dict_get (stats sm) user_id")
  case None
  then show ?thesis by (simp add: old_user_def new_user_consistent)
next
  case (Some us)
  assume "manager_consistent sm"
  then have "list_all (\<lambda>p. user_consistent (snd p)) (stats sm)"
    by (simp add: manager_consistent_def)
  from list_all_dict_get[OF this Some] show ?thesis using Some by (simp add: old_user_def)
qed

lemma add_test_result_consistent_step:
  assumes "manager_consistent sm"
  shows "manager_consistent (add_test_result sm user_id ttype q ok tm)"
proof -
  have "user_consistent (update_user (old_user sm user_id) ttype q ok tm)"
    by (rule update_user_consistent[OF old_user_consistent[OF assms]])
  moreover have "list_all (\<lambda>p. user_consistent (snd p)) (stats sm)"
    using assms by (simp add: manager_consistent_def)
  ultimately show ?thesis
    using assms
    by (simp add: add_test_result_eq manager_consistent_def distinct_dict_set list_all_dict_set)
qed

lemma history_old_question:
  "history (old_question (old_user sm user_id) ttype q) = history_of sm user_id q"
  by (simp add: old_question_def old_user_def history_of_def new_user_stats_def dict_get_def
        split: option.splits)

lemma history_of_add:
  "history_of (add_test_result sm user_id ttype q ok tm) u q' =
     (if u = user_id \<and> q' = q
      then last_n 10 (history_of sm user_id q @ [\<lparr>timestamp = tm, is_correct = ok\<rparr>])
      else history_of sm u q')"
proof (cases "u = user_id")
  case False
  then show ?thesis by (simp add: add_test_result_eq history_of_def dict_get_set)
next
  case True
  show ?thesis
  proof (cases "q' = q")
    case True
    with \<open>u = user_id\<close> show ?thesis
      by (simp add: add_test_result_eq history_of_def[of "\<lparr>stats = _, changes_count = _\<rparr>"]
            dict_get_set update_user_eq history_old_question)
  next
    case False
    have "history_of sm user_id q' =
            (case dict_get (questions (old_user sm user_id)) q' of None \<Rightarrow> [] | Some qs \<Rightarrow> history qs)"
      by (simp add: history_of_def old_user_def new_user_stats_def dict_get_def split: option.splits)
    with False \<open>u = user_id\<close> show ?thesis
      by (simp add: add_test_result_eq history_of_def[of "\<lparr>stats = _, changes_count = _\<rparr>"]
            dict_get_set update_user_eq)
  qed
qed

lemma history_of_short: "manager_consistent sm \<Longrightarrow> length (history_of sm user_id q) \<le> 10"
proof -
  assume c: "manager_consistent sm"
  show ?thesis
  proof (cases "dict_get (stats sm) user_id")
    case None
    then show ?thesis by (simp add: history_of_def)
  next
    case (Some us)
    have "user_consistent us"
      using old_user_consistent[OF c, of user_id] Some by (simp add: old_user_def)
    then have l: "list_all (\<lambda>p. length (history (snd p)) \<le> 10) (questions us)"
      by (auto simp: user_consistent_def list_all_iff)
    show ?thesis
    proof (cases "dict_get (questions us) q")
      case None
      with Some show ?thesis by (simp add: history_of_def)
    next
      case (Some qs)
      from list_all_dict_get[OF l Some] show ?thesis
        using Some \<open>dict_get (stats sm) user_id = Some us\<close> by (simp add: history_of_def)
    qed
  qed
qed

lemma record_all_Cons:
  "record_all sm ((u, ttype, q, ok, tm) # calls) = record_all (add_test_result sm u ttype q ok tm) calls"
  by (simp add: record_all_def)

lemma record_all_consistent:
  "manager_consistent sm \<Longrightarrow> manager_consistent (record_all sm calls)"
proof (induction calls arbitrary: sm)
  case Nil
  then show ?case by (simp add: record_all_def)
next
  case (Cons c calls)
  obtain u ttype q ok tm where c: "c = (u, ttype, q, ok, tm)" by (metis prod_cases5)
  show ?case
    unfolding c record_all_Cons
    by (rule Cons.IH[OF add_test_result_consistent_step[OF Cons.prems]])
qed

lemma record_all_history:
  "manager_consistent sm \<Longrightarrow>
     history_of (record_all sm calls) user_id question =
       last_n 10 (history_of sm user_id question @ items_for user_id question calls)"
proof (induction calls arbitrary: sm)
  case Nil
  then show ?case
    by (simp add: record_all_def items_for_def last_n_short history_of_short)
next
  case (Cons c calls)
  obtain u ttype q ok tm where c: "c = (u, ttype, q, ok, tm)" by (metis prod_cases5)
  note ih = Cons.IH[OF add_test_result_consistent_step[OF Cons.prems], of u ttype q ok tm]
  show ?case
  proof (cases "u = user_id \<and> q = question")
    case True
    then have i: "items_for user_id question (c # calls)
                   = \<lparr>timestamp = tm, is_correct = ok\<rparr> # items_for user_id question calls"
      by (simp add: items_for_def c)
    show ?thesis
      unfolding c record_all_Cons ih i[unfolded c]
      using True last_n_absorb[of 10 "history_of sm user_id question @ [\<lparr>timestamp = tm, is_correct = ok\<rparr>]"
                                   "items_for user_id question calls"]
      by (simp add: history_of_add)
  next
    case False
    then have i: "items_for user_id question (c # calls) = items_for user_id question calls"
      by (auto simp: items_for_def c)
    show ?thesis
      unfolding c record_all_Cons ih i[unfolded c]
      using False by (auto simp: history_of_add)
  qed
qed

text \<open>
  C10: \<open>add_test_result\<close> preserves the consistency of the statistics. After any sequence
  of recorded results, starting from consistent statistics (the empty ones are), for every
  user \<open>tests_total\<close> is the sum of the totals and \<open>tests_correct\<close> the sum of the
  correct counts over the test types, every question has at most as many correct
  answers as attempts, and its history has at most 10 entries: the last 10 of the old
  history followed by the results recorded for that user and question.
\<close>

theorem recorded_results_consistent:
  "manager_consistent sm \<Longrightarrow>
     manager_consistent (record_all sm calls)
     \<and> history_of (record_all sm calls) user_id question =
         last_n 10 (history_of sm user_id question @ items_for user_id question calls)"
  using record_all_consistent[of sm calls] record_all_history[of sm calls user_id question]
  by blast

text \<open>Twelve results for one question of user 5, and one result of user 6.\<close>

definition twelve_calls :: "call list" where
  "twelve_calls =
     map (\<lambda>i. (5, ustr ''date'', ustr ''1569'', even i, 1000 + int i)) [1..<13]
     @ [(6, ustr ''event'', ustr ''1791'', True, 2000)]"

lemma twelve_calls_history:
  "length (last_n 10 (items_for 5 (ustr ''1569'') twelve_calls)) = 10
   \<and> map timestamp (last_n 10 (items_for 5 (ustr ''1569'') twelve_calls))
       = [1003, 1004, 1005, 1006, 1007, 1008, 1009, 1010, 1011, 1012]"
  by code_simp

lemma twelve_calls_totals:
  "map (\<lambda>p. (fst p, tests_total (snd p), tests_correct (snd p)))
     (stats (record_all \<lparr>stats = [], changes_count = 0\<rparr> twelve_calls))
   = [(5, 12, 6), (6, 1, 1)]"
  by code_simp

theorem recorded_results_consistent_witness:
  "manager_consistent \<lparr>stats = [], changes_count = 0\<rparr>
   \<and> manager_consistent (record_all \<lparr>stats = [], changes_count = 0\<rparr> twelve_calls)
   \<and> map timestamp (history_of (record_all \<lparr>stats = [], changes_count = 0\<rparr> twelve_calls)
                       5 (ustr ''1569''))
       = [1003, 1004, 1005, 1006, 1007, 1008, 1009, 1010, 1011, 1012]
   \<and> map (\<lambda>p. (fst p, tests_total (snd p), tests_correct (snd p)))
        (stats (record_all \<lparr>stats = [], changes_count = 0\<rparr> twelve_calls))
       = [(5, 12, 6), (6, 1, 1)]"
proof -
  have e: "manager_consistent \<lparr>stats = [], changes_count = 0\<rparr>"
    by (simp add: manager_consistent_def)
  have h0: "history_of \<lparr>stats = [], changes_count = 0\<rparr> 5 (ustr ''1569'') = []"
    by (simp add: history_of_def dict_get_def)
  from recorded_results_consistent[OF e, of twelve_calls 5 "ustr ''1569''"]
  show ?thesis using e twelve_calls_history twelve_calls_totals by (simp add: h0)
qed

end
